theory Spec2Isabelle
  imports Complex_Main "HOL-Library.AList"
begin

section \<open>The process pool of Pebble (pebble/process/pool.py)\<close>

text \<open>
  The pool process keeps two dictionaries, the Task Registry (\<open>TaskManager.tasks\<close>)
  and the Worker Registry (\<open>WorkerManager.workers\<close>), and talks to three external
  collaborators: the task objects (\<open>pebble.task.Task\<close>), the submission queue and the
  channel to the workers. A Python dictionary is an association list in insertion
  order, read with \<open>map_of\<close>, written with \<open>AList.update\<close> (an existing key keeps its
  place, a new key goes to the end) and popped with \<open>AList.delete\<close>. Every call into
  an external collaborator is appended to a log of effects, in the order the calls
  are made.
\<close>

subsection \<open>Python values\<close>

text \<open>
  The exceptions the module raises, catches or passes on as results.
  \<open>TimeoutError\<close>, \<open>TaskCancelled\<close> and \<open>ProcessExpired\<close> are the classes of
  \<open>pebble.exceptions\<close>; \<open>EnvironmentError\<close> carries its \<open>errno\<close>, which Python
  leaves \<open>None\<close> when the error was built without one; \<open>EOFError\<close> has no such
  attribute.
\<close>

datatype exn =
    TimeoutError string
  | TaskCancelled string
  | ProcessExpired string "int option"
  | EOFError
  | EnvironmentError "int option"
  | KeyError
  | TypeError
  | AttributeError

text \<open>What \<open>set_results\<close> receives: a value sent back by a worker, or an exception object.\<close>

datatype 'r results = Value 'r | Error exn

text \<open>
  The attribute \<open>_metadata\<close> of a task is dynamically typed: it holds the payload
  until the task is acknowledged and the PID of the worker afterwards.
\<close>

datatype 'p metadata = Payload 'p | WorkerId int

text \<open>
  A task object, with the attributes this module reads or writes. \<open>ident\<close> is
  \<open>id(task)\<close>, the identity of the object. \<open>timeout\<close> is \<open>None\<close> or a number of
  seconds. The property \<open>started\<close> of the class is not an attribute written by this
  module: the functions that read it take it as a parameter.
\<close>

record 'p task =
  ident :: nat
  metadata :: "'p metadata"
  timestamp :: real
  timeout :: "real option"
  cancelled :: bool

text \<open>The four namedtuples that cross the channel.\<close>

datatype ('p, 'r) message =
    NoMessage
  | NewTask nat "'p metadata"
  | Results nat "'r results"
  | Acknowledgement int nat

text \<open>A worker process as the pool sees it: \<open>pid\<close>, \<open>is_alive()\<close> and \<open>exitcode\<close>.\<close>

record worker =
  pid :: int
  is_alive :: bool
  exitcode :: "int option"

text \<open>Calls into the external collaborators, logged in the order they are made.\<close>

datatype ('p, 'r) effect =
    SetResults "'p task" "'r results"
  | QueueTaskDone
  | Send "('p, 'r) message"
  | Stop worker
  | Spawn worker

text \<open>
  The state of a \<open>PoolManager\<close>: the dictionary of its \<open>TaskManager\<close>, the
  dictionary and the configured size of its \<open>WorkerManager\<close>, and the log.
\<close>

record ('p, 'r) pool =
  tasks :: "(nat \<times> 'p task) list"
  workers :: "(int \<times> worker) list"
  workers_number :: int
  effects :: "('p, 'r) effect list"

subsection \<open>TaskManager\<close>

definition register :: "('p, 'r) pool \<Rightarrow> 'p task \<Rightarrow> ('p, 'r) pool" where
  "register s task = s\<lparr>tasks := AList.update (ident task) task (tasks s)\<rparr>"

text \<open>\<open>now\<close> is the value \<open>time.time()\<close> returns in the call.\<close>

definition task_start :: "real \<Rightarrow> ('p, 'r) pool \<Rightarrow> nat \<Rightarrow> int \<Rightarrow> ('p, 'r) pool" where
  "task_start now s task_id worker_id =
     (case map_of (tasks s) task_id of
        None \<Rightarrow> s
      | Some task \<Rightarrow>
          s\<lparr>tasks := AList.update task_id
                 (task\<lparr>metadata := WorkerId worker_id, timestamp := now\<rparr>) (tasks s)\<rparr>)"

definition task_done :: "('p, 'r) pool \<Rightarrow> nat \<Rightarrow> 'r results \<Rightarrow> ('p, 'r) pool" where
  "task_done s task_id res =
     (case map_of (tasks s) task_id of
        None \<Rightarrow> s
      | Some task \<Rightarrow>
          s\<lparr>tasks := AList.delete task_id (tasks s),
            effects := effects s @ [SetResults task res, QueueTaskDone]\<rparr>)"

text \<open>
  \<open>task.timeout and task.started\<close> tests the truth value of the timeout: \<open>None\<close>
  and zero are false, every other number is true.
\<close>

definition truthy :: "real option \<Rightarrow> bool" where
  "truthy x = (case x of None \<Rightarrow> False | Some v \<Rightarrow> v \<noteq> 0)"

definition has_timeout :: "('p task \<Rightarrow> bool) \<Rightarrow> real \<Rightarrow> 'p task \<Rightarrow> bool" where
  "has_timeout started now task =
     (if truthy (timeout task) \<and> started task
      then now - timestamp task > the (timeout task)
      else False)"

subsection \<open>PoolManager.process_message\<close>

definition process_message :: "real \<Rightarrow> ('p, 'r) pool \<Rightarrow> ('p, 'r) message \<Rightarrow> ('p, 'r) pool" where
  "process_message now s m =
     (case m of
        Acknowledgement w t \<Rightarrow> task_start now s t w
      | Results t r \<Rightarrow> task_done s t r
      | _ \<Rightarrow> s)"

text \<open>
  \<open>message_manager_loop\<close> over the messages \<open>get_next_message\<close> yields while the
  context is alive, each paired with the clock reading at which it is processed.
\<close>

fun message_manager_loop :: "('p, 'r) pool \<Rightarrow> (real \<times> ('p, 'r) message) list \<Rightarrow> ('p, 'r) pool" where
  "message_manager_loop s [] = s"
| "message_manager_loop s ((now, m) # ms) = message_manager_loop (process_message now s m) ms"

subsection \<open>The collaborators outside the module\<close>

text \<open>
  What the pool's operations observe of the code and the processes around them:
  \<^item> \<open>started\<close>: the property \<open>Task.started\<close>;
  \<^item> \<open>clock t\<close>: the value \<open>time.time()\<close> returns while \<open>has_timeout\<close> examines
    the task \<open>t\<close> (the scan reads the clock once for each task it tests);
  \<^item> \<open>hashable p\<close>: whether \<open>hash\<close> succeeds on the payload \<open>p\<close>, which decides
    between \<open>KeyError\<close> and \<open>TypeError\<close> when a payload is used as a dictionary key;
  \<^item> \<open>lock_acquired i\<close>: whether the \<open>i\<close>-th \<open>stop_worker\<close> call of an operation
    gets the channel lock (otherwise acquiring it raises \<open>TimeoutError\<close>);
  \<^item> \<open>spawn i\<close>: the process the \<open>i\<close>-th \<open>worker_process(...)\<close> call of an
    operation starts.
\<close>

record 'p world =
  started :: "'p task \<Rightarrow> bool"
  clock :: "'p task \<Rightarrow> real"
  hashable :: "'p \<Rightarrow> bool"
  lock_acquired :: "nat \<Rightarrow> bool"
  spawn :: "nat \<Rightarrow> worker"

definition inspect_tasks :: "'p world \<Rightarrow> ('p, 'r) pool \<Rightarrow> 'p task list \<times> 'p task list" where
  "inspect_tasks w s =
     (let ts = map snd (tasks s)
      in (filter (\<lambda>t. has_timeout (started w) (clock w t) t) ts,
          filter (\<lambda>t. started w t \<and> cancelled t) ts))"

subsection \<open>WorkerManager\<close>

definition dispatch :: "('p, 'r) pool \<Rightarrow> 'p task \<Rightarrow> ('p, 'r) pool" where
  "dispatch s task = s\<lparr>effects := effects s @ [Send (NewTask (ident task) (metadata task))]\<rparr>"

text \<open>
  \<open>inspect_workers\<close> pops every expired worker under its \<open>pid\<close>; a \<open>pid\<close> that is
  not a key raises \<open>KeyError\<close>, which nothing catches. The result pairs the state
  reached with the exception or the returned sequence. \<open>os.EX_OK\<close> is 0.
\<close>

fun pop_expired :: "('p, 'r) pool \<Rightarrow> worker list \<Rightarrow> ('p, 'r) pool \<times> exn option" where
  "pop_expired s [] = (s, None)"
| "pop_expired s (w # ws) =
     (case map_of (workers s) (pid w) of
        None \<Rightarrow> (s, Some KeyError)
      | Some _ \<Rightarrow> pop_expired (s\<lparr>workers := AList.delete (pid w) (workers s)\<rparr>) ws)"

definition inspect_workers ::
  "('p, 'r) pool \<Rightarrow> ('p, 'r) pool \<times> (exn + (int \<times> int option) list)" where
  "inspect_workers s =
     (let expired = filter (\<lambda>w. \<not> is_alive w) (map snd (workers s))
      in case pop_expired s expired of
           (s', Some e) \<Rightarrow> (s', Inl e)
         | (s', None) \<Rightarrow>
             (s', Inr (map (\<lambda>w. (pid w, exitcode w))
                        (filter (\<lambda>w. exitcode w \<noteq> Some 0) expired))))"

definition new_worker :: "worker \<Rightarrow> ('p, 'r) pool \<Rightarrow> ('p, 'r) pool" where
  "new_worker wk s =
     s\<lparr>workers := AList.update (pid wk) wk (workers s), effects := effects s @ [Spawn wk]\<rparr>"

definition create_workers :: "'p world \<Rightarrow> ('p, 'r) pool \<Rightarrow> ('p, 'r) pool" where
  "create_workers w s =
     fold (\<lambda>i. new_worker (spawn w i))
       [0..<nat (workers_number s - int (length (workers s)))] s"

text \<open>
  \<open>stop_worker\<close> swallows the \<open>TimeoutError\<close> of a busy lock and the \<open>KeyError\<close> of a
  key that is not in the dictionary. The key is whatever the caller passes: a PID,
  or the \<open>_metadata\<close> of a task, which may still be a payload; an unhashable key makes
  \<open>pop\<close> raise \<open>TypeError\<close>, which is not caught.
\<close>

definition stop_worker ::
  "'p world \<Rightarrow> nat \<Rightarrow> ('p, 'r) pool \<Rightarrow> 'p metadata \<Rightarrow> ('p, 'r) pool \<times> exn option" where
  "stop_worker w i s worker_id =
     (if \<not> lock_acquired w i then (s, None)
      else case worker_id of
             Payload p \<Rightarrow> (s, if hashable w p then None else Some TypeError)
           | WorkerId n \<Rightarrow>
               (case map_of (workers s) n of
                  None \<Rightarrow> (s, None)
                | Some wk \<Rightarrow>
                    (s\<lparr>workers := AList.delete n (workers s),
                       effects := effects s @ [Stop wk]\<rparr>, None)))"

text \<open>The loop \<open>for worker_id in ...: stop_worker(worker_id)\<close>, left at the first exception.\<close>

fun stop_each ::
  "'p world \<Rightarrow> nat \<Rightarrow> ('p, 'r) pool \<Rightarrow> 'p metadata list \<Rightarrow> ('p, 'r) pool \<times> exn option" where
  "stop_each w i s [] = (s, None)"
| "stop_each w i s (m # ms) =
     (case stop_worker w i s m of
        (s', Some e) \<Rightarrow> (s', Some e)
      | (s', None) \<Rightarrow> stop_each w (Suc i) s' ms)"

definition stop_workers :: "'p world \<Rightarrow> ('p, 'r) pool \<Rightarrow> ('p, 'r) pool \<times> exn option" where
  "stop_workers w s = stop_each w 0 s (map (\<lambda>k. WorkerId k) (map fst (workers s)))"

subsection \<open>PoolManager\<close>

text \<open>
  \<open>schedule\<close> is two statements, \<open>self.task_manager.register(task)\<close> and then
  \<open>self.worker_manager.dispatch(task)\<close>, performed in the order of the source.
\<close>

datatype 'p statement = Register "'p task" | Dispatch "'p task"

fun perform :: "('p, 'r) pool \<Rightarrow> 'p statement \<Rightarrow> ('p, 'r) pool" where
  "perform s (Register task) = register s task"
| "perform s (Dispatch task) = dispatch s task"

definition schedule_statements :: "'p task \<Rightarrow> 'p statement list" where
  "schedule_statements task = [Register task, Dispatch task]"

definition schedule :: "('p, 'r) pool \<Rightarrow> 'p task \<Rightarrow> ('p, 'r) pool" where
  "schedule s task = foldl perform s (schedule_statements task)"

text \<open>\<open>TimeoutError('Timeout')\<close> and \<open>TaskCancelled('Cancelled')\<close>.\<close>

definition timeout_error :: "'r results" where
  "timeout_error = Error (TimeoutError ''Timeout'')"

definition cancelled_error :: "'r results" where
  "cancelled_error = Error (TaskCancelled ''Cancelled'')"

definition update_tasks :: "'p world \<Rightarrow> ('p, 'r) pool \<Rightarrow> ('p, 'r) pool \<times> exn option" where
  "update_tasks w s =
     (case inspect_tasks w s of
        (timeouts, cancellations) \<Rightarrow>
          (let s1 = fold (\<lambda>task s. task_done s (ident task) timeout_error) timeouts s;
               s2 = fold (\<lambda>task s. task_done s (ident task) cancelled_error) cancellations s1
           in stop_each w 0 s2 (map metadata (timeouts @ cancellations))))"

definition worker_id_lookup :: "('p, 'r) pool \<Rightarrow> int \<Rightarrow> 'p task option" where
  "worker_id_lookup s worker_id =
     find (\<lambda>task. metadata task = WorkerId worker_id) (map snd (tasks s))"

text \<open>The body of the loop of \<open>update_workers\<close>, for one pair of PID and exit code.\<close>

definition expire :: "('p, 'r) pool \<Rightarrow> int \<times> int option \<Rightarrow> ('p, 'r) pool" where
  "expire s d =
     (case worker_id_lookup s (fst d) of
        None \<Rightarrow> s
      | Some task \<Rightarrow>
          task_done s (ident task) (Error (ProcessExpired ''Abnormal termination'' (snd d))))"

definition update_workers :: "'p world \<Rightarrow> ('p, 'r) pool \<Rightarrow> ('p, 'r) pool \<times> exn option" where
  "update_workers w s =
     (case inspect_workers s of
        (s1, Inl e) \<Rightarrow> (s1, Some e)
      | (s1, Inr dead) \<Rightarrow> (create_workers w (foldl expire s1 dead), None))"

definition update_status :: "'p world \<Rightarrow> ('p, 'r) pool \<Rightarrow> ('p, 'r) pool \<times> exn option" where
  "update_status w s =
     (case update_tasks w s of
        (s1, Some e) \<Rightarrow> (s1, Some e)
      | (s1, None) \<Rightarrow> update_workers w s1)"

subsection \<open>The task scheduler\<close>

text \<open>
  What \<open>task_queue.get()\<close> hands out: a \<open>Task\<close>, or anything else (\<open>Pool.stop\<close> puts
  \<open>None\<close>). The queue is the list of the items still to come; \<open>get\<close> on an empty
  queue blocks.
\<close>

datatype 'p item = TaskItem "'p task" | NotATask

datatype 'p next_item = Yield "'p task" | Return | Blocked

text \<open>
  One resumption of the generator \<open>pool_get_next_task\<close>, which is one pass through
  its \<open>while\<close> loop; \<open>alive\<close> is the value of \<open>context.alive\<close> at the loop test.
\<close>

definition pool_get_next_task ::
  "bool \<Rightarrow> 'p item list \<Rightarrow> ('p, 'r) pool \<Rightarrow> 'p next_item \<times> 'p item list \<times> ('p, 'r) pool" where
  "pool_get_next_task alive queue s =
     (if \<not> alive then (Return, queue, s)
      else case queue of
             [] \<Rightarrow> (Blocked, [], s)
           | TaskItem task # rest \<Rightarrow>
               if \<not> cancelled task then (Yield task, rest, s)
               else (Return, rest, s\<lparr>effects := effects s @ [QueueTaskDone]\<rparr>)
           | NotATask # rest \<Rightarrow> (Return, rest, s\<lparr>effects := effects s @ [QueueTaskDone]\<rparr>))"

datatype loop_end = Finished | Waiting

text \<open>
  \<open>task_scheduler_loop\<close>: \<open>alive i\<close> is \<open>context.alive\<close> at the \<open>i\<close>-th loop test. The
  result is how the thread ends (or that it waits in \<open>get\<close> for ever), the items
  left in the queue and the state of the pool.
\<close>

function task_scheduler_loop ::
  "(nat \<Rightarrow> bool) \<Rightarrow> nat \<Rightarrow> 'p item list \<Rightarrow> ('p, 'r) pool \<Rightarrow> loop_end \<times> 'p item list \<times> ('p, 'r) pool" where
  "task_scheduler_loop alive i queue s =
     (case pool_get_next_task (alive i) queue s of
        (Yield task, rest, s') \<Rightarrow> task_scheduler_loop alive (Suc i) rest (schedule s' task)
      | (Return, rest, s') \<Rightarrow> (Finished, rest, s')
      | (Blocked, rest, s') \<Rightarrow> (Waiting, rest, s'))"
  by pat_completeness auto
termination
proof (relation "measure (\<lambda>(alive, i, queue, s). length queue)")
  show "wf (measure (\<lambda>(alive, i, queue, s). length queue))" by simp
next
  fix alive :: "nat \<Rightarrow> bool" and i and queue :: "'p item list" and s :: "('p, 'r) pool"
    and x1 x2 rest s' task
  assume "(x1, x2) = pool_get_next_task (alive i) queue s" "(rest, s') = x2" "x1 = Yield task"
  then have "pool_get_next_task (alive i) queue s = (Yield task, rest, s')" by simp
  then have "length rest < length queue"
    by (auto simp: pool_get_next_task_def split: if_splits list.splits item.splits)
  then show "((alive, Suc i, rest, schedule s' task), alive, i, queue, s)
      \<in> measure (\<lambda>(alive, i, queue, s). length queue)"
    by simp
qed

declare task_scheduler_loop.simps [simp del]

subsection \<open>The worker process\<close>

text \<open>
  The parameters of a worker. \<open>initializer\<close> and \<open>deinitializer\<close> are \<open>None\<close> when
  none is configured, and otherwise carry what \<open>run_initializer\<close> returns for them.
\<close>

record worker_parameters =
  task_limit :: int
  initializer :: "bool option"
  deinitializer :: "bool option"

text \<open>
  What the channel does to a worker during one pass of its loop:
  \<^item> \<open>poll\<close>: the exception \<open>channel.poll()\<close> raises, if any;
  \<^item> \<open>transactions\<close>: the outcomes of the successive calls of \<open>task_transaction\<close>,
    each one an exception (\<open>TimeoutError\<close> when the lock is busy) or the \<open>NewTask\<close>
    received, with its id and payload, for which the Acknowledgement has been sent;
  \<^item> \<open>execution\<close>: what \<open>execute\<close> returns for the payload;
  \<^item> \<open>sending\<close>: the exception \<open>send_results\<close> raises, if any.
  A worker whose channel has nothing more to say stays suspended in it.
\<close>

record ('p, 'r) round =
  poll :: "exn option"
  transactions :: "(exn + nat \<times> 'p metadata) list"
  execution :: "'r results"
  sending :: "exn option"

text \<open>The loop \<open>while task is None\<close> of \<open>fetch_task\<close>; \<open>None\<close> when it never leaves.\<close>

fun task_transactions :: "(exn + nat \<times> 'p metadata) list \<Rightarrow> (exn + nat \<times> 'p metadata) option" where
  "task_transactions [] = None"
| "task_transactions (Inr task # rest) = Some (Inr task)"
| "task_transactions (Inl (TimeoutError m) # rest) = task_transactions rest"
| "task_transactions (Inl e # rest) = Some (Inl e)"

definition fetch_task :: "('p, 'r) round \<Rightarrow> (exn + nat \<times> 'p metadata) option" where
  "fetch_task r =
     (case poll r of Some e \<Rightarrow> Some (Inl e) | None \<Rightarrow> task_transactions (transactions r))"

text \<open>
  The loop test of the generator \<open>worker_get_next_task\<close>, \<open>not task_limit or
  next(counter) < task_limit\<close>: whether the generator goes on to fetch a task, and
  the next value of the counter, which is advanced only when it is read.
\<close>

definition worker_get_next_task :: "int \<Rightarrow> nat \<Rightarrow> bool \<times> nat" where
  "worker_get_next_task limit counter =
     (if limit = 0 then (True, counter) else (int counter < limit, Suc counter))"

datatype ('p, 'r) action = Sent "('p, 'r) message" | Executed 'p

datatype loop_exit = Exhausted | Raised exn | Suspended

text \<open>
  The \<open>for\<close> loop of \<open>worker_process\<close> over the generator; \<open>me\<close> is \<open>os.getpid()\<close>.
  \<open>execute_next_task\<close> unpacks the payload into function, arguments and keyword
  arguments, which raises \<open>TypeError\<close> on a PID.
\<close>

fun worker_loop ::
  "int \<Rightarrow> int \<Rightarrow> nat \<Rightarrow> ('p, 'r) round list \<Rightarrow> ('p, 'r) action list \<times> loop_exit" where
  "worker_loop me limit counter [] =
     (if fst (worker_get_next_task limit counter) then ([], Suspended) else ([], Exhausted))"
| "worker_loop me limit counter (r # rest) =
     (if \<not> fst (worker_get_next_task limit counter) then ([], Exhausted)
      else case fetch_task r of
             None \<Rightarrow> ([], Suspended)
           | Some (Inl e) \<Rightarrow> ([], Raised e)
           | Some (Inr (task_id, WorkerId n)) \<Rightarrow>
               ([Sent (Acknowledgement me task_id)], Raised TypeError)
           | Some (Inr (task_id, Payload p)) \<Rightarrow>
               (case sending r of
                  Some e \<Rightarrow> ([Sent (Acknowledgement me task_id), Executed p], Raised e)
                | None \<Rightarrow>
                    (case worker_loop me limit (snd (worker_get_next_task limit counter)) rest of
                       (acts, ending) \<Rightarrow>
                         (Sent (Acknowledgement me task_id) # Executed p
                            # Sent (Results task_id (execution r)) # acts, ending))))"

text \<open>
  How the function \<open>worker_process\<close> ends: a call of \<open>os._exit\<close>, a \<open>return\<close> of a
  value, an exception nothing catches, or never (suspended in the channel).
\<close>

datatype ending = OsExit int | Returned "int option" | Uncaught exn | Never

text \<open>
  The handler \<open>except (EOFError, EnvironmentError) as error: return error.errno\<close>
  reads the attribute \<open>errno\<close>, which an \<open>EOFError\<close> does not have: the read raises
  \<open>AttributeError\<close> inside the handler.
\<close>

definition handle_error :: "exn \<Rightarrow> ending" where
  "handle_error e =
     (case e of
        EOFError \<Rightarrow> Uncaught AttributeError
      | EnvironmentError errno \<Rightarrow> Returned errno
      | _ \<Rightarrow> Uncaught e)"

definition worker_process ::
  "int \<Rightarrow> worker_parameters \<Rightarrow> ('p, 'r) round list \<Rightarrow> ('p, 'r) action list \<times> ending" where
  "worker_process me params rounds =
     (if initializer params \<noteq> None \<and> initializer params \<noteq> Some True then ([], OsExit 0)
      else case worker_loop me (task_limit params) 0 rounds of
             (acts, Raised e) \<Rightarrow> (acts, handle_error e)
           | (acts, Suspended) \<Rightarrow> (acts, Never)
           | (acts, Exhausted) \<Rightarrow>
               (if deinitializer params \<noteq> None \<and> deinitializer params \<noteq> Some True
                then (acts, OsExit 0)
                else (acts, OsExit 0)))"

definition executions :: "('p, 'r) action list \<Rightarrow> 'p list" where
  "executions acts = concat (map (\<lambda>a. case a of Executed p \<Rightarrow> [p] | _ \<Rightarrow> []) acts)"

definition acknowledged :: "('p, 'r) action list \<Rightarrow> nat list" where
  "acknowledged acts =
     concat (map (\<lambda>a. case a of Sent (Acknowledgement n task_id) \<Rightarrow> [task_id] | _ \<Rightarrow> []) acts)"

text \<open>A pass in which the channel delivers a task and takes its results back.\<close>

definition delivers :: "('p, 'r) round \<Rightarrow> bool" where
  "delivers r =
     (sending r = None \<and>
      (case fetch_task r of Some (Inr (task_id, Payload p)) \<Rightarrow> True | _ \<Rightarrow> False))"

subsection \<open>The constructor of the pool\<close>

text \<open>
  Python's binding of the arguments of a call to the parameters of a function whose
  parameters all have defaults: positional arguments fill the parameters from the
  left; a keyword must name a parameter that no positional argument and no other
  keyword has filled; otherwise the call raises \<open>TypeError\<close>.
\<close>

datatype pyval = PyNone | PyInt int | PyTuple "pyval list" | PyObject nat

definition bind ::
  "(string \<times> pyval) list \<Rightarrow> pyval list \<Rightarrow> (string \<times> pyval) list \<Rightarrow> exn + (string \<times> pyval) list" where
  "bind params args kwargs =
     (if length params < length args then Inl TypeError
      else if \<exists>k \<in> set (map fst kwargs). k \<notin> set (map fst params) then Inl TypeError
      else if \<exists>k \<in> set (map fst kwargs). k \<in> set (take (length args) (map fst params))
        then Inl TypeError
      else if \<not> distinct (map fst kwargs) then Inl TypeError
      else Inr (map (\<lambda>(k, d). (k, case map_of (zip (map fst params) args @ kwargs) k of
                                        Some v \<Rightarrow> v | None \<Rightarrow> d)) params))"

text \<open>
  \<open>Pool.__init__(self, workers=1, task_limit=0, queue=None, queueargs=None,
  initializer=None, initargs=())\<close>: the values it passes on to \<open>BasePool.__init__\<close>.
\<close>

definition Pool_parameters :: "(string \<times> pyval) list" where
  "Pool_parameters =
     [(''workers'', PyInt 1), (''task_limit'', PyInt 0), (''queue'', PyNone),
      (''queueargs'', PyNone), (''initializer'', PyNone), (''initargs'', PyTuple [])]"

definition Pool_init :: "pyval list \<Rightarrow> (string \<times> pyval) list \<Rightarrow> exn + pyval list" where
  "Pool_init args kwargs =
     (case bind Pool_parameters args kwargs of
        Inl e \<Rightarrow> Inl e
      | Inr bound \<Rightarrow> Inr (map snd bound))"

subsection \<open>The scheduler and the message manager side by side\<close>

text \<open>
  The scheduler thread and the message manager thread run side by side on the same
  \<open>PoolManager\<close>: between two statements of the scheduler the message manager may
  process any number of messages. A run is a list of events, each a statement of
  the scheduler or a message processed at a clock reading.
\<close>

datatype ('p, 'r) event = Statement "'p statement" | Message real "('p, 'r) message"

fun run :: "('p, 'r) pool \<Rightarrow> ('p, 'r) event list \<Rightarrow> ('p, 'r) pool" where
  "run s [] = s"
| "run s (Statement c # es) = run (perform s c) es"
| "run s (Message now m # es) = run (process_message now s m) es"

text \<open>The statements of a run, and the task a message from a worker is about.\<close>

definition statements :: "('p, 'r) event list \<Rightarrow> 'p statement list" where
  "statements es = concat (map (\<lambda>e. case e of Statement c \<Rightarrow> [c] | Message now m \<Rightarrow> []) es)"

definition task_of :: "('p, 'r) message \<Rightarrow> nat option" where
  "task_of m =
     (case m of Acknowledgement n k \<Rightarrow> Some k | Results k r \<Rightarrow> Some k | _ \<Rightarrow> None)"

text \<open>
  A worker sends an Acknowledgement or Results only for a task it has received
  (\<open>task_transaction\<close> answers the \<open>NewTask\<close> it reads): in a causal run every such
  message is processed after a \<open>NewTask\<close> with its id has been written to the
  channel. \<open>sent written k\<close> says that the log holds such a write.
\<close>

definition sent :: "('p, 'r) effect list \<Rightarrow> nat \<Rightarrow> bool" where
  "sent written k = list_ex (\<lambda>e. case e of Send (NewTask k' p) \<Rightarrow> k' = k | _ \<Rightarrow> False) written"

fun causal :: "('p, 'r) pool \<Rightarrow> ('p, 'r) event list \<Rightarrow> bool" where
  "causal s [] = True"
| "causal s (Statement c # es) = causal (perform s c) es"
| "causal s (Message now m # es) =
     ((case task_of m of None \<Rightarrow> True | Some k \<Rightarrow> sent (effects s) k)
      \<and> causal (process_message now s m) es)"

text \<open>The event is a message about the task id \<open>k\<close>.\<close>

definition about :: "nat \<Rightarrow> ('p, 'r) event \<Rightarrow> bool" where
  "about k e = (case e of Statement c \<Rightarrow> False | Message now m \<Rightarrow> task_of m = Some k)"

subsection \<open>Well-formed registries\<close>

text \<open>
  The Task Registry is only written by \<open>register\<close>, under the key \<open>id(task)\<close>, and
  the Worker Registry only by \<open>new_worker\<close>, under the key \<open>worker.pid\<close>; the keys
  of a dictionary are distinct.
\<close>

definition registry_ok :: "('p, 'r) pool \<Rightarrow> bool" where
  "registry_ok s =
     (distinct (map fst (tasks s)) \<and> list_all (\<lambda>(k, t). ident t = k) (tasks s))"

definition workers_ok :: "('p, 'r) pool \<Rightarrow> bool" where
  "workers_ok s =
     (distinct (map fst (workers s)) \<and> list_all (\<lambda>(k, wk). pid wk = k) (workers s))"

text \<open>
  The calls that resolving the ids \<open>ks\<close> with \<open>res\<close> makes on a registry \<open>xs\<close>, in
  order: nothing for an id that is not registered.
\<close>

definition resolved :: "'r results \<Rightarrow> (nat \<times> 'p task) list \<Rightarrow> nat list \<Rightarrow> ('p, 'r) effect list" where
  "resolved res xs ks =
     concat (map (\<lambda>k. case map_of xs k of
                        None \<Rightarrow> []
                      | Some t \<Rightarrow> [SetResults t res, QueueTaskDone]) ks)"

text \<open>
  The calls that expiring the workers \<open>dead\<close>, given as pairs of PID and exit code,
  makes on a registry \<open>xs\<close>, in order: for each of them the first task whose
  \<open>_metadata\<close> is that PID, if there is one, is resolved with \<open>ProcessExpired\<close>.
\<close>

definition expirations ::
  "(nat \<times> 'p task) list \<Rightarrow> (int \<times> int option) list \<Rightarrow> ('p, 'r) effect list" where
  "expirations xs dead =
     concat (map (\<lambda>d. case find (\<lambda>task. metadata task = WorkerId (fst d)) (map snd xs) of
                        None \<Rightarrow> []
                      | Some t \<Rightarrow>
                          [SetResults t (Error (ProcessExpired ''Abnormal termination'' (snd d))),
                           QueueTaskDone]) dead)"

subsection \<open>Expired workers in the words of the specification\<close>

text \<open>
  ``Workers that have exited with a non-success exit code'', as pairs of PID and
  exit code, in the order of the Worker Registry; and the number of workers
  missing from the configured count once the dead ones are gone.
\<close>

definition expired_workers :: "('p, 'r) pool \<Rightarrow> (int \<times> int option) list" where
  "expired_workers s =
     map (\<lambda>wk. (pid wk, exitcode wk))
       (filter (\<lambda>wk. \<not> is_alive wk \<and> exitcode wk \<noteq> Some 0) (map snd (workers s)))"

definition live_workers :: "('p, 'r) pool \<Rightarrow> (int \<times> worker) list" where
  "live_workers s = filter (\<lambda>(k, wk). is_alive wk) (workers s)"

definition shortage :: "('p, 'r) pool \<Rightarrow> nat" where
  "shortage s = nat (workers_number s - int (length (live_workers s)))"

subsection \<open>Sample states\<close>

text \<open>
  One way the class can define \<open>started\<close>: a task has started once it carries a
  start timestamp.
\<close>

definition timestamp_started :: "'p task \<Rightarrow> bool" where
  "timestamp_started t = (0 < timestamp t)"

definition task_a :: "nat task" where
  "task_a = \<lparr>ident = 7, metadata = Payload 0, timestamp = 0, timeout = None, cancelled = False\<rparr>"

definition pool_a :: "(nat, nat) pool" where
  "pool_a = \<lparr>tasks = [(7, task_a)], workers = [], workers_number = 1, effects = []\<rparr>"

definition world_a :: "nat world" where
  "world_a =
     \<lparr>started = timestamp_started, clock = (\<lambda>t. 5), hashable = (\<lambda>p. True),
      lock_acquired = (\<lambda>i. True),
      spawn = (\<lambda>i. \<lparr>pid = 100 + int i, is_alive = True, exitcode = None\<rparr>)\<rparr>"

text \<open>A started task with a negative timeout.\<close>

definition task_neg :: "nat task" where
  "task_neg =
     \<lparr>ident = 3, metadata = WorkerId 40, timestamp = 5, timeout = Some (- 1), cancelled = False\<rparr>"

definition pool_neg :: "(nat, nat) pool" where
  "pool_neg = \<lparr>tasks = [(3, task_neg)], workers = [], workers_number = 1, effects = []\<rparr>"

subsection \<open>The timeout predicate in the words of the specification\<close>

text \<open>
  ``Started, has a positive timeout, and the current time minus its start timestamp
  strictly exceeds the timeout.''
\<close>

definition spec_timed_out :: "('p task \<Rightarrow> bool) \<Rightarrow> real \<Rightarrow> 'p task \<Rightarrow> bool" where
  "spec_timed_out st now t =
     (st t \<and> (case timeout t of None \<Rightarrow> False | Some x \<Rightarrow> 0 < x \<and> now - timestamp t > x))"

definition worker_40 :: worker where
  "worker_40 = \<lparr>pid = 40, is_alive = True, exitcode = None\<rparr>"

definition pool_b :: "(nat, nat) pool" where
  "pool_b = \<lparr>tasks = [(7, task_a)], workers = [(40, worker_40)], workers_number = 1, effects = []\<rparr>"

definition always :: "nat \<Rightarrow> bool" where
  "always i = True"

definition task_c :: "nat task" where
  "task_c = \<lparr>ident = 9, metadata = Payload 1, timestamp = 0, timeout = None, cancelled = True\<rparr>"

definition pool_e :: "(nat, nat) pool" where
  "pool_e = \<lparr>tasks = [], workers = [(40, worker_40)], workers_number = 1, effects = []\<rparr>"

text \<open>A pass of a worker's loop: the lock is busy once, then task \<open>k\<close> arrives.\<close>

definition round_ok :: "nat \<Rightarrow> (nat, nat) round" where
  "round_ok k =
     \<lparr>poll = None, transactions = [Inl (TimeoutError ''busy''), Inr (k, Payload k)],
      execution = Value (Suc k), sending = None\<rparr>"

definition params_0 :: worker_parameters where
  "params_0 = \<lparr>task_limit = 0, initializer = None, deinitializer = None\<rparr>"

text \<open>The channel is closed by the other side; the pipe is broken (\<open>EPIPE\<close> is 32).\<close>

definition round_eof :: "(nat, nat) round" where
  "round_eof = \<lparr>poll = None, transactions = [Inl EOFError], execution = Value 0, sending = None\<rparr>"

definition round_epipe :: "(nat, nat) round" where
  "round_epipe =
     \<lparr>poll = None, transactions = [Inl (EnvironmentError (Some 32))], execution = Value 0,
      sending = None\<rparr>"

text \<open>A started task that is past its timeout and cancelled.\<close>

definition task_t :: "nat task" where
  "task_t =
     \<lparr>ident = 3, metadata = WorkerId 40, timestamp = 1, timeout = Some 2, cancelled = True\<rparr>"

definition pool_t :: "(nat, nat) pool" where
  "pool_t =
     \<lparr>tasks = [(3, task_t)], workers = [(40, worker_40)], workers_number = 1, effects = []\<rparr>"

text \<open>
  A pool of three workers: one alive, one that died with exit code 123 while it
  held a task, one that exited with \<open>os.EX_OK\<close> while it held a task.
\<close>

definition worker_41 :: worker where
  "worker_41 = \<lparr>pid = 41, is_alive = False, exitcode = Some 123\<rparr>"

definition worker_42 :: worker where
  "worker_42 = \<lparr>pid = 42, is_alive = False, exitcode = Some 0\<rparr>"

definition task_41 :: "nat task" where
  "task_41 =
     \<lparr>ident = 11, metadata = WorkerId 41, timestamp = 1, timeout = None, cancelled = False\<rparr>"

definition task_42 :: "nat task" where
  "task_42 =
     \<lparr>ident = 12, metadata = WorkerId 42, timestamp = 1, timeout = None, cancelled = False\<rparr>"

definition pool_w :: "(nat, nat) pool" where
  "pool_w =
     \<lparr>tasks = [(7, task_a), (11, task_41), (12, task_42)],
      workers = [(40, worker_40), (41, worker_41), (42, worker_42)],
      workers_number = 3, effects = []\<rparr>"

section \<open>Resolution of a task\<close>

lemma task_start_dom:
  "map_of (tasks (task_start now s k w)) k' = None \<longleftrightarrow> map_of (tasks s) k' = None"
  by (auto simp: task_start_def update_conv' split: option.splits)

lemma task_done_dom:
  "map_of (tasks s) k' = None \<Longrightarrow> map_of (tasks (task_done s k r)) k' = None"
  by (auto simp: task_done_def delete_conv' split: option.splits)

lemma process_message_absent:
  "map_of (tasks s) k = None \<Longrightarrow> map_of (tasks (process_message now s m)) k = None"
  by (cases m) (simp_all add: process_message_def task_start_dom task_done_dom)

lemma message_manager_loop_absent:
  "map_of (tasks s) k = None \<Longrightarrow> map_of (tasks (message_manager_loop s ms)) k = None"
  by (induction s ms rule: message_manager_loop.induct) (simp_all add: process_message_absent)

lemma task_done_removes: "map_of (tasks (task_done s k r)) k = None"
  by (simp add: task_done_def delete_conv' split: option.splits)

lemma task_done_absent: "map_of (tasks s) k = None \<Longrightarrow> task_done s k r = s"
  by (simp add: task_done_def)

text \<open>
  C1. The first \<open>task_done\<close> with a registered id pops the task, calls
  \<open>set_results\<close> on it and then the queue's task-done callback; a call with an id
  that is not registered changes nothing; and once an id has been resolved, a later
  \<open>task_done\<close> with that id changes nothing, whatever acknowledgements and results
  the message manager loop has processed in between.
\<close>

theorem task_done_resolves_once:
  "(map_of (tasks s) k = Some t \<longrightarrow>
      task_done s k r =
        s\<lparr>tasks := AList.delete k (tasks s),
          effects := effects s @ [SetResults t r, QueueTaskDone]\<rparr>)
   \<and> (map_of (tasks s) k = None \<longrightarrow> task_done s k r = s)
   \<and> map_of (tasks (task_done s k r)) k = None
   \<and> task_done (message_manager_loop (task_done s k r) ms) k r' = message_manager_loop (task_done s k r) ms"
proof (intro conjI impI)
  assume "map_of (tasks s) k = Some t"
  then show "task_done s k r =
      s\<lparr>tasks := AList.delete k (tasks s),
        effects := effects s @ [SetResults t r, QueueTaskDone]\<rparr>"
    by (simp add: task_done_def)
next
  assume "map_of (tasks s) k = None"
  then show "task_done s k r = s" by (rule task_done_absent)
next
  show "map_of (tasks (task_done s k r)) k = None" by (rule task_done_removes)
next
  have "map_of (tasks (message_manager_loop (task_done s k r) ms)) k = None"
    by (rule message_manager_loop_absent) (rule task_done_removes)
  then show "task_done (message_manager_loop (task_done s k r) ms) k r' = message_manager_loop (task_done s k r) ms"
    by (rule task_done_absent)
qed

theorem task_done_resolves_once_witness:
  "map_of (tasks pool_a) 7 = Some task_a
   \<and> task_done pool_a 7 (Value 1) =
       pool_a\<lparr>tasks := [], effects := [SetResults task_a (Value 1), QueueTaskDone]\<rparr>
   \<and> map_of (tasks pool_a) 8 = None
   \<and> task_done pool_a 8 (Value 1) = pool_a
   \<and> task_done (message_manager_loop (task_done pool_a 7 (Value 1)) [(1, Results 7 (Value 2))]) 7 timeout_error =
       pool_a\<lparr>tasks := [], effects := [SetResults task_a (Value 1), QueueTaskDone]\<rparr>"
  using task_done_resolves_once [of pool_a 7 task_a "Value 1" "[(1, Results 7 (Value 2))]" timeout_error]
    task_done_resolves_once [of pool_a 8 task_a "Value 1" "[]" timeout_error]
  by (simp add: pool_a_def process_message_def task_done_def)

section \<open>Timeouts\<close>

lemma has_timeout_iff:
  "has_timeout st now t \<longleftrightarrow>
     st t \<and> (\<exists>x. timeout t = Some x \<and> x \<noteq> 0 \<and> now - timestamp t > x)"
  by (cases "timeout t") (auto simp: has_timeout_def truthy_def)

text \<open>
  C2, as the code has it. \<open>inspect_tasks\<close> puts a registered task in its first list
  exactly when the task is started, its timeout is a number other than zero (the
  test is on the truth value, so a negative timeout counts), and the clock reading
  minus the start timestamp is strictly greater than the timeout. A task that has
  not started is never in that list.
\<close>

theorem inspect_tasks_timed_out:
  "(t \<in> set (fst (inspect_tasks w s)) \<longleftrightarrow>
      t \<in> set (map snd (tasks s)) \<and> started w t \<and>
      (\<exists>x. timeout t = Some x \<and> x \<noteq> 0 \<and> clock w t - timestamp t > x))
   \<and> (\<not> started w t \<longrightarrow> t \<notin> set (fst (inspect_tasks w s)))"
  by (auto simp: inspect_tasks_def Let_def has_timeout_iff)

theorem inspect_tasks_timed_out_witness:
  "\<not> started world_a task_a \<and> task_a \<in> set (map snd (tasks pool_a))
   \<and> task_a \<notin> set (fst (inspect_tasks world_a pool_a))"
  using inspect_tasks_timed_out [of task_a world_a pool_a]
  by (simp add: world_a_def task_a_def pool_a_def timestamp_started_def)

text \<open>
  The claim as the specification words it fails on a negative timeout: the task
  below is started, its timeout is \<open>-1\<close>, and the clock equals its start timestamp;
  the code lists it as timed out, the specification's predicate does not hold.
\<close>

theorem inspect_tasks_positive_timeout_counterexample:
  "fst (inspect_tasks world_a pool_neg) = [task_neg]
   \<and> \<not> spec_timed_out (started world_a) (clock world_a task_neg) task_neg"
  by (simp add: inspect_tasks_def has_timeout_def truthy_def spec_timed_out_def
      world_a_def pool_neg_def task_neg_def timestamp_started_def)

section \<open>Scheduling a task\<close>

lemma schedule_eq: "schedule s t = dispatch (register s t) t"
  by (simp add: schedule_def schedule_statements_def)

text \<open>
  The state \<open>schedule\<close> ends in: the task is registered, one \<open>NewTask\<close> message
  has been written, and a later Acknowledgement or Results for the task finds the
  entry.
\<close>

lemma schedule_final_state:
  "schedule s t = dispatch (register s t) t
   \<and> map_of (tasks (register s t)) (ident t) = Some t
   \<and> effects (register s t) = effects s
   \<and> tasks (schedule s t) = tasks (register s t)
   \<and> effects (schedule s t) = effects s @ [Send (NewTask (ident t) (metadata t))]
   \<and> map_of (tasks (process_message now (schedule s t) (Acknowledgement n (ident t)))) (ident t)
       = Some (t\<lparr>metadata := WorkerId n, timestamp := now\<rparr>)
   \<and> effects (process_message now (schedule s t) (Results (ident t) r))
       = effects s @ [Send (NewTask (ident t) (metadata t)), SetResults t r, QueueTaskDone]"
  by (simp add: schedule_eq dispatch_def register_def process_message_def task_start_def
      task_done_def update_conv')

lemma sent_append: "sent (xs @ ys) k \<longleftrightarrow> sent xs k \<or> sent ys k"
  by (simp add: sent_def)

lemma sent_process_message: "sent (effects (process_message now s m)) k = sent (effects s) k"
  by (cases m)
    (auto simp: process_message_def task_start_def task_done_def sent_def split: option.splits)

lemma sent_perform:
  "sent (effects (perform s c)) k \<longleftrightarrow> sent (effects s) k \<or> (\<exists>t. c = Dispatch t \<and> ident t = k)"
  by (cases c) (auto simp: register_def dispatch_def sent_def)

lemma statements_simps [simp]:
  "statements [] = []"
  "statements (Statement c # es) = c # statements es"
  "statements (Message now m # es) = statements es"
  "statements (xs @ ys) = statements xs @ statements ys"
  by (simp_all add: statements_def)

lemma run_append: "run s (xs @ ys) = run (run s xs) ys"
  by (induction s xs rule: run.induct) simp_all

lemma sent_run:
  "sent (effects (run s es)) k \<Longrightarrow>
   sent (effects s) k \<or> (\<exists>t. ident t = k \<and> Dispatch t \<in> set (statements es))"
proof (induction s es rule: run.induct)
  case (1 s)
  then show ?case by simp
next
  case (2 s c es)
  from 2 have "sent (effects (perform s c)) k \<or> (\<exists>t. ident t = k \<and> Dispatch t \<in> set (statements es))"
    by simp
  then show ?case by (auto simp: sent_perform)
next
  case (3 s now m es)
  then show ?case by (simp add: sent_process_message)
qed

lemma causal_sent:
  "causal s (pre @ Message now m # post) \<Longrightarrow> task_of m = Some k \<Longrightarrow>
   sent (effects (run s pre)) k"
  by (induction s pre rule: run.induct) simp_all

lemma program_order:
  "concat (map schedule_statements ts) = p @ q \<Longrightarrow> Dispatch t \<in> set p \<Longrightarrow>
   t \<in> set ts \<and> (\<exists>a b. p = a @ Register t # Dispatch t # b)"
proof (induction ts arbitrary: p)
  case Nil
  then show ?case by simp
next
  case (Cons u ts)
  have "concat (map schedule_statements (u # ts))
      = Register u # Dispatch u # concat (map schedule_statements ts)"
    by (simp add: schedule_statements_def [of u])
  with Cons.prems(1) have eq: "Register u # Dispatch u # concat (map schedule_statements ts) = p @ q"
    by (simp only:)
  show ?case
  proof (cases p)
    case Nil
    with Cons.prems(2) show ?thesis by simp
  next
    case p1: (Cons x p')
    with eq have x: "x = Register u" and rest1: "Dispatch u # concat (map schedule_statements ts) = p' @ q"
      by simp_all
    show ?thesis
    proof (cases p')
      case Nil
      with p1 x Cons.prems(2) show ?thesis by simp
    next
      case p2: (Cons y p'')
      with rest1 have y: "y = Dispatch u" and rest2: "concat (map schedule_statements ts) = p'' @ q"
        by simp_all
      have p: "p = Register u # Dispatch u # p''" using p1 p2 x y by simp
      show ?thesis
      proof (cases "t = u")
        case True
        then have "p = [] @ Register t # Dispatch t # p''" using p by simp
        then show ?thesis using True by auto
      next
        case False
        with Cons.prems(2) p have "Dispatch t \<in> set p''" by simp
        from Cons.IH [OF rest2 this] obtain a b where
          "t \<in> set ts" "p'' = a @ Register t # Dispatch t # b" by blast
        then have "p = (Register u # Dispatch u # a) @ Register t # Dispatch t # b"
          using p by simp
        with \<open>t \<in> set ts\<close> show ?thesis by (metis list.set_intros(2))
      qed
    qed
  qed
qed

lemma statements_split:
  "statements es = a @ c # b \<Longrightarrow>
   \<exists>p1 p2. es = p1 @ Statement c # p2 \<and> statements p1 = a \<and> statements p2 = b"
proof (induction es arbitrary: a)
  case Nil
  then show ?case by simp
next
  case (Cons e es)
  show ?case
  proof (cases e)
    case (Message now m)
    with Cons.prems have "statements es = a @ c # b" by simp
    from Cons.IH [OF this] obtain p1 p2 where
      "es = p1 @ Statement c # p2" "statements p1 = a" "statements p2 = b" by blast
    then have "e # es = (e # p1) @ Statement c # p2 \<and> statements (e # p1) = a \<and> statements p2 = b"
      using Message by simp
    then show ?thesis by blast
  next
    case (Statement d)
    with Cons.prems have eq: "d # statements es = a @ c # b" by simp
    show ?thesis
    proof (cases a)
      case Nil
      with eq have "d = c" "statements es = b" by simp_all
      then have "e # es = [] @ Statement c # es \<and> statements [] = a \<and> statements es = b"
        using Statement Nil by simp
      then show ?thesis by blast
    next
      case (Cons x a')
      with eq have "x = d" "statements es = a' @ c # b" by simp_all
      from Cons.IH [OF this(2)] obtain p1 p2 where
        "es = p1 @ Statement c # p2" "statements p1 = a'" "statements p2 = b" by blast
      then have "e # es = (e # p1) @ Statement c # p2 \<and> statements (e # p1) = a \<and> statements p2 = b"
        using Statement Cons \<open>x = d\<close> by simp
      then show ?thesis by blast
    qed
  qed
qed

lemma entry_kept_perform: "map_of (tasks s) k \<noteq> None \<Longrightarrow> map_of (tasks (perform s c)) k \<noteq> None"
  by (cases c) (auto simp: register_def dispatch_def update_conv')

lemma entry_kept_message:
  "map_of (tasks s) k \<noteq> None \<Longrightarrow> task_of m \<noteq> Some k \<Longrightarrow>
   map_of (tasks (process_message now s m)) k \<noteq> None"
  by (cases m)
    (auto simp: process_message_def task_start_def task_done_def task_of_def update_conv'
      delete_conv' split: option.splits)

lemma entry_kept_run:
  "map_of (tasks s) k \<noteq> None \<Longrightarrow> \<forall>e \<in> set es. \<not> about k e \<Longrightarrow>
   map_of (tasks (run s es)) k \<noteq> None"
proof (induction s es rule: run.induct)
  case (1 s)
  then show ?case by simp
next
  case (2 s c es)
  then show ?case by (simp add: entry_kept_perform)
next
  case (3 s now m es)
  from 3 have "task_of m \<noteq> Some k" by (simp add: about_def)
  with 3 show ?case by (simp add: entry_kept_message)
qed


lemma schedule_run: "schedule s t = run s (map Statement (schedule_statements t))"
  by (simp add: schedule_def schedule_statements_def)

text \<open>
  C4. \<open>schedule\<close> runs its two statements in the order register, dispatch. Take
  any run in which the scheduler schedules the tasks \<open>ts\<close> one after the other while
  the message manager processes messages in between, and in which the workers
  answer only what they have received. If a message about a task id \<open>k\<close> that had
  not been dispatched before is processed, then before that message the run holds,
  for a task of \<open>ts\<close> with this identity, first the \<open>register\<close> statement and later the
  \<open>dispatch\<close> statement: registration precedes every Acknowledgement and every
  Results for the identity. The first such message finds the task in the registry.
\<close>

theorem schedule_registers_before_dispatch:
  fixes s :: "('p, 'r) pool"
  assumes prog: "statements es = concat (map schedule_statements ts)"
    and caus: "causal s es"
    and split: "es = pre @ Message now m # post"
    and msg: "task_of m = Some k"
    and fresh: "\<not> sent (effects s) k"
  shows "(\<exists>t \<in> set ts. ident t = k
           \<and> (\<exists>p1 p2 p3. pre = p1 @ Statement (Register t) # p2 @ Statement (Dispatch t) # p3))
       \<and> ((\<forall>e \<in> set pre. \<not> about k e) \<longrightarrow> map_of (tasks (run s pre)) k \<noteq> None)
       \<and> schedule s' t' = run s' (map Statement (schedule_statements t'))"
proof -
  have "sent (effects (run s pre)) k"
    using caus msg unfolding split by (rule causal_sent)
  from sent_run [OF this] fresh obtain t where
    t: "ident t = k" "Dispatch t \<in> set (statements pre)"
    by blast
  have "concat (map schedule_statements ts) = statements pre @ statements post"
    using prog unfolding split by simp
  from program_order [OF this t(2)] obtain a b where
    ts: "t \<in> set ts" and ab: "statements pre = a @ Register t # Dispatch t # b"
    by blast
  from statements_split [OF ab] obtain p1 q where
    q: "pre = p1 @ Statement (Register t) # q" "statements q = Dispatch t # b"
    by blast
  from q(2) have "statements q = [] @ Dispatch t # b" by simp
  from statements_split [OF this] obtain p2 p3 where
    p: "q = p2 @ Statement (Dispatch t) # p3"
    by blast
  have order: "pre = p1 @ Statement (Register t) # p2 @ Statement (Dispatch t) # p3"
    using q(1) p by simp
  have found: "(\<forall>e \<in> set pre. \<not> about k e) \<longrightarrow> map_of (tasks (run s pre)) k \<noteq> None"
  proof
    assume quiet: "\<forall>e \<in> set pre. \<not> about k e"
    have "run s pre = run (register (run s p1) t) q"
      unfolding q(1) by (simp add: run_append)
    moreover have "map_of (tasks (register (run s p1) t)) k \<noteq> None"
      using t(1) by (simp add: register_def update_conv')
    moreover have "\<forall>e \<in> set q. \<not> about k e" using quiet unfolding q(1) by simp
    ultimately show "map_of (tasks (run s pre)) k \<noteq> None"
      by (simp add: entry_kept_run)
  qed
  from ts t(1) order have "\<exists>t \<in> set ts. ident t = k
      \<and> (\<exists>p1 p2 p3. pre = p1 @ Statement (Register t) # p2 @ Statement (Dispatch t) # p3)"
    by blast
  with found schedule_run [of s' t'] show ?thesis by blast
qed

theorem schedule_registers_before_dispatch_witness:
  "statements [Statement (Register task_a), Statement (Dispatch task_a),
      Message 1 (Acknowledgement 40 7 :: (nat, nat) message)]
     = concat (map schedule_statements [task_a])
   \<and> causal pool_e [Statement (Register task_a), Statement (Dispatch task_a),
        Message 1 (Acknowledgement 40 7)]
   \<and> task_of (Acknowledgement 40 7 :: (nat, nat) message) = Some 7
   \<and> \<not> sent (effects pool_e) 7
   \<and> \<not> about 7 (Statement (Register task_a) :: (nat, nat) event)
   \<and> map_of (tasks (run pool_e [Statement (Register task_a), Statement (Dispatch task_a)])) 7
       = Some task_a
   \<and> map_of (tasks (run pool_e [Statement (Register task_a), Statement (Dispatch task_a),
        Message 1 (Acknowledgement 40 7)])) 7
       = Some (task_a\<lparr>metadata := WorkerId 40, timestamp := 1\<rparr>)"
  using schedule_registers_before_dispatch
    [where es = "[Statement (Register task_a), Statement (Dispatch task_a),
        Message 1 (Acknowledgement 40 7)]"
      and ts = "[task_a]" and s = pool_e
      and pre = "[Statement (Register task_a), Statement (Dispatch task_a)]"
      and now = 1 and m = "Acknowledgement 40 7" and post = "[]" and k = 7
      and s' = pool_e and t' = task_a]
  by (simp add: schedule_statements_def task_of_def sent_def about_def pool_e_def task_a_def
      register_def dispatch_def process_message_def task_start_def)

text \<open>
  The order matters: were the message written first, a worker could acknowledge the
  task before it is registered, and the Acknowledgement would be dropped. In the
  run below the task ends up registered with its payload and without a worker.
\<close>

lemma dispatch_before_register_drops:
  "causal pool_e [Statement (Dispatch task_a), Message 1 (Acknowledgement 40 7),
      Statement (Register task_a)]
   \<and> map_of (tasks (run pool_e [Statement (Dispatch task_a), Message 1 (Acknowledgement 40 7),
        Statement (Register task_a)])) 7
       = Some task_a"
  by (simp add: task_of_def sent_def pool_e_def task_a_def register_def dispatch_def
      process_message_def task_start_def)

section \<open>The metadata field\<close>

lemma task_start_lookup:
  "map_of (tasks s) k = Some t \<Longrightarrow>
   map_of (tasks (task_start now s k n)) k = Some (t\<lparr>metadata := WorkerId n, timestamp := now\<rparr>)"
  by (simp add: task_start_def update_conv')

lemma find_exists: "x \<in> set xs \<Longrightarrow> P x \<Longrightarrow> \<exists>y. find P xs = Some y \<and> P y \<and> y \<in> set xs"
  by (induction xs) auto

lemma find_SomeD: "find P xs = Some y \<Longrightarrow> P y \<and> y \<in> set xs"
  by (induction xs) (auto split: if_splits)

lemma worker_id_lookup_SomeD:
  "worker_id_lookup s n = Some t \<Longrightarrow> metadata t = WorkerId n \<and> t \<in> set (map snd (tasks s))"
  unfolding worker_id_lookup_def by (drule find_SomeD) simp

lemma worker_id_lookup_after_start:
  assumes "map_of (tasks s) k = Some t"
  shows "\<exists>t'. worker_id_lookup (task_start now s k n) n = Some t' \<and> metadata t' = WorkerId n"
proof -
  let ?u = "t\<lparr>metadata := WorkerId n, timestamp := now\<rparr>"
  have "map_of (tasks (task_start now s k n)) k = Some ?u"
    using assms by (rule task_start_lookup)
  then have "(k, ?u) \<in> set (tasks (task_start now s k n))" by (rule map_of_SomeD)
  then have "?u \<in> set (map snd (tasks (task_start now s k n)))" by force
  moreover have "metadata ?u = WorkerId n" by simp
  ultimately show ?thesis
    unfolding worker_id_lookup_def
    using find_exists [of ?u "map snd (tasks (task_start now s k n))"
        "\<lambda>task. metadata task = WorkerId n"]
    by blast
qed

text \<open>
  C10. One field serves as payload and as worker tag. \<open>dispatch\<close> sends the current
  contents of \<open>_metadata\<close> as the payload of the \<open>NewTask\<close> message. \<open>task_start\<close>
  overwrites the field of the registered task with the worker's PID, so the entry
  holds no payload any more. \<open>worker_id_lookup\<close> returns a task whose field equals
  the PID it is asked for, and finds one after the acknowledgement. \<open>stop_worker\<close>,
  given the field of a task, stops the worker registered under that PID when the
  field is a PID, and stops nothing while the field is still a payload.
\<close>

theorem metadata_payload_then_worker_tag:
  "effects (dispatch s t) = effects s @ [Send (NewTask (ident t) (metadata t))]
   \<and> (map_of (tasks s) k = Some t \<longrightarrow>
        map_of (tasks (task_start now s k n)) k
          = Some (t\<lparr>metadata := WorkerId n, timestamp := now\<rparr>)
        \<and> (\<forall>u p. map_of (tasks (task_start now s k n)) k = Some u \<longrightarrow> metadata u \<noteq> Payload p)
        \<and> (\<exists>t'. worker_id_lookup (task_start now s k n) n = Some t' \<and> metadata t' = WorkerId n))
   \<and> (worker_id_lookup s n = Some t \<longrightarrow>
        metadata t = WorkerId n \<and> t \<in> set (map snd (tasks s)))
   \<and> (metadata t = WorkerId n \<and> lock_acquired w i \<and> map_of (workers s) n = Some wk \<longrightarrow>
        stop_worker w i s (metadata t)
          = (s\<lparr>workers := AList.delete n (workers s), effects := effects s @ [Stop wk]\<rparr>, None))
   \<and> (metadata t = Payload p \<longrightarrow> fst (stop_worker w i s (metadata t)) = s)"
proof (intro conjI impI allI)
  show "effects (dispatch s t) = effects s @ [Send (NewTask (ident t) (metadata t))]"
    by (simp add: dispatch_def)
next
  assume "map_of (tasks s) k = Some t"
  then show "map_of (tasks (task_start now s k n)) k
      = Some (t\<lparr>metadata := WorkerId n, timestamp := now\<rparr>)"
    by (rule task_start_lookup)
next
  fix u p
  assume "map_of (tasks s) k = Some t" and "map_of (tasks (task_start now s k n)) k = Some u"
  then show "metadata u \<noteq> Payload p"
    by (auto simp: task_start_lookup)
next
  assume "map_of (tasks s) k = Some t"
  then show "\<exists>t'. worker_id_lookup (task_start now s k n) n = Some t' \<and> metadata t' = WorkerId n"
    by (rule worker_id_lookup_after_start)
next
  assume found: "worker_id_lookup s n = Some t"
  from worker_id_lookup_SomeD [OF found] show "metadata t = WorkerId n" by blast
next
  assume found: "worker_id_lookup s n = Some t"
  from worker_id_lookup_SomeD [OF found] show "t \<in> set (map snd (tasks s))" by blast
next
  assume "metadata t = WorkerId n \<and> lock_acquired w i \<and> map_of (workers s) n = Some wk"
  then show "stop_worker w i s (metadata t)
      = (s\<lparr>workers := AList.delete n (workers s), effects := effects s @ [Stop wk]\<rparr>, None)"
    by (simp add: stop_worker_def)
next
  assume "metadata t = Payload p"
  then show "fst (stop_worker w i s (metadata t)) = s"
    by (simp add: stop_worker_def)
qed

theorem metadata_payload_then_worker_tag_witness:
  "map_of (tasks pool_b) 7 = Some task_a
   \<and> metadata task_a = Payload 0
   \<and> fst (stop_worker world_a 0 pool_b (metadata task_a)) = pool_b
   \<and> map_of (tasks (task_start 1 pool_b 7 40)) 7
       = Some (task_a\<lparr>metadata := WorkerId 40, timestamp := 1\<rparr>)
   \<and> worker_id_lookup (task_start 1 pool_b 7 40) 40
       = Some (task_a\<lparr>metadata := WorkerId 40, timestamp := 1\<rparr>)
   \<and> lock_acquired world_a 0
   \<and> map_of (workers (task_start 1 pool_b 7 40)) 40 = Some worker_40
   \<and> stop_worker world_a 0 (task_start 1 pool_b 7 40)
         (metadata (task_a\<lparr>metadata := WorkerId 40, timestamp := 1\<rparr>))
       = ((task_start 1 pool_b 7 40)\<lparr>workers := [], effects := [Stop worker_40]\<rparr>, None)"
  using metadata_payload_then_worker_tag
      [of pool_b task_a 7 1 40 world_a 0 worker_40 0]
    metadata_payload_then_worker_tag
      [of "task_start 1 pool_b 7 40" "task_a\<lparr>metadata := WorkerId 40, timestamp := 1\<rparr>"
          7 1 40 world_a 0 worker_40 0]
  by (simp add: pool_b_def task_a_def world_a_def task_start_def worker_id_lookup_def
      stop_worker_def)

section \<open>The task scheduler loop\<close>

lemma scheduler_yield:
  "alive i \<Longrightarrow> \<not> cancelled t \<Longrightarrow>
   task_scheduler_loop alive i (TaskItem t # rest) s
     = task_scheduler_loop alive (Suc i) rest (schedule s t)"
  by (subst task_scheduler_loop.simps) (simp add: pool_get_next_task_def)

lemma scheduler_stop:
  "alive i \<Longrightarrow> x = NotATask \<or> (\<exists>t. x = TaskItem t \<and> cancelled t) \<Longrightarrow>
   task_scheduler_loop alive i (x # rest) s
     = (Finished, rest, s\<lparr>effects := effects s @ [QueueTaskDone]\<rparr>)"
  by (subst task_scheduler_loop.simps) (auto simp: pool_get_next_task_def)

lemma scheduler_run:
  "\<forall>j \<le> length ts. alive (i + j) \<Longrightarrow> \<forall>t \<in> set ts. \<not> cancelled t \<Longrightarrow>
   x = NotATask \<or> (\<exists>t. x = TaskItem t \<and> cancelled t) \<Longrightarrow>
   task_scheduler_loop alive i (map TaskItem ts @ x # rest) s
     = (Finished, rest,
        (foldl schedule s ts)\<lparr>effects := effects (foldl schedule s ts) @ [QueueTaskDone]\<rparr>)"
proof (induction ts arbitrary: i s)
  case Nil
  then show ?case using scheduler_stop [of alive i x rest s] by simp
next
  case (Cons t ts)
  have alive_i: "alive i" using Cons.prems(1) by (metis add.right_neutral le0)
  have later: "\<forall>j \<le> length ts. alive (Suc i + j)"
  proof (intro allI impI)
    fix j assume "j \<le> length ts"
    then have "Suc j \<le> length (t # ts)" by simp
    with Cons.prems(1) have "alive (i + Suc j)" by blast
    then show "alive (Suc i + j)" by simp
  qed
  have "task_scheduler_loop alive i (map TaskItem (t # ts) @ x # rest) s
      = task_scheduler_loop alive (Suc i) (map TaskItem ts @ x # rest) (schedule s t)"
    using scheduler_yield [of alive i t "map TaskItem ts @ x # rest" s] alive_i Cons.prems(2)
    by simp
  also have "\<dots> = (Finished, rest,
        (foldl schedule (schedule s t) ts)
          \<lparr>effects := effects (foldl schedule (schedule s t) ts) @ [QueueTaskDone]\<rparr>)"
    using Cons.IH [OF later _ Cons.prems(3)] Cons.prems(2) by simp
  finally show ?case by simp
qed

text \<open>
  C3. While the context is alive, the scheduler loop treats the item it takes from
  the queue as follows. A task that is not cancelled is passed to \<open>schedule\<close> and the
  loop goes on with the rest of the queue. Anything that is not a task (the
  shutdown sentinel) and any cancelled task makes the loop call the queue's
  \<open>task_done\<close> and finish; the item is not scheduled. Hence a run of live tasks
  followed by such an item schedules exactly the live tasks, in order, acknowledges
  once and ends, leaving the rest of the queue untouched.
\<close>

theorem task_scheduler_loop_items:
  "(alive i \<and> \<not> cancelled t \<longrightarrow>
      task_scheduler_loop alive i (TaskItem t # rest) s
        = task_scheduler_loop alive (Suc i) rest (schedule s t))
   \<and> (alive i \<and> (x = NotATask \<or> (\<exists>t. x = TaskItem t \<and> cancelled t)) \<longrightarrow>
      task_scheduler_loop alive i (x # rest) s
        = (Finished, rest, s\<lparr>effects := effects s @ [QueueTaskDone]\<rparr>))
   \<and> ((\<forall>j \<le> length ts. alive (i + j)) \<and> (\<forall>t \<in> set ts. \<not> cancelled t)
        \<and> (x = NotATask \<or> (\<exists>t. x = TaskItem t \<and> cancelled t)) \<longrightarrow>
      task_scheduler_loop alive i (map TaskItem ts @ x # rest) s
        = (Finished, rest,
           (foldl schedule s ts)\<lparr>effects := effects (foldl schedule s ts) @ [QueueTaskDone]\<rparr>))"
  using scheduler_yield [of alive i t rest s] scheduler_stop [of alive i x rest s]
    scheduler_run [of ts alive i x rest s]
  by blast

theorem task_scheduler_loop_items_witness:
  "always 0 \<and> always 1 \<and> \<not> cancelled task_a
   \<and> task_scheduler_loop always 0 [TaskItem task_a, NotATask, TaskItem task_a] pool_e
       = (Finished, [TaskItem task_a],
          pool_e\<lparr>tasks := [(7, task_a)],
                 effects := [Send (NewTask 7 (Payload 0)), QueueTaskDone]\<rparr>)
   \<and> cancelled task_c
   \<and> task_scheduler_loop always 0 [TaskItem task_c, TaskItem task_a] pool_e
       = (Finished, [TaskItem task_a], pool_e\<lparr>effects := [QueueTaskDone]\<rparr>)"
  using task_scheduler_loop_items [of always 0 task_a "[TaskItem task_a]" pool_e NotATask "[task_a]"]
    task_scheduler_loop_items [of always 0 task_a "[TaskItem task_a]" pool_e "TaskItem task_c" "[]"]
  by (simp add: always_def task_a_def task_c_def pool_e_def schedule_eq register_def
      dispatch_def)

section \<open>The task limit of a worker\<close>

lemma executions_simps [simp]:
  "executions [] = []"
  "executions (Sent m # acts) = executions acts"
  "executions (Executed p # acts) = p # executions acts"
  by (simp_all add: executions_def)

lemma acknowledged_simps [simp]:
  "acknowledged [] = []"
  "acknowledged (Sent (Acknowledgement n k) # acts) = k # acknowledged acts"
  "acknowledged (Sent (Results k r) # acts) = acknowledged acts"
  "acknowledged (Executed p # acts) = acknowledged acts"
  by (simp_all add: acknowledged_def)

lemma worker_loop_bounded:
  "0 < K \<Longrightarrow>
   length (executions (fst (worker_loop me K c rounds))) \<le> nat K - c
   \<and> length (acknowledged (fst (worker_loop me K c rounds))) \<le> nat K - c"
proof (induction rounds arbitrary: c)
  case Nil
  then show ?case by simp
next
  case (Cons r rest)
  from Cons.prems Cons.IH [OF Cons.prems, of "Suc c"] show ?case
    by (auto simp: worker_get_next_task_def split: option.splits sum.splits prod.splits
        metadata.splits)
qed

lemma worker_loop_exact:
  "0 < K \<Longrightarrow> c + length rs = nat K \<Longrightarrow> \<forall>r \<in> set rs. delivers r \<Longrightarrow>
   snd (worker_loop me K c (rs @ later)) = Exhausted
   \<and> length (executions (fst (worker_loop me K c (rs @ later)))) = length rs"
proof (induction rs arbitrary: c)
  case Nil
  then show ?case by (cases later) (auto simp: worker_get_next_task_def)
next
  case (Cons r rs)
  from Cons.prems Cons.IH [of "Suc c"] show ?case
    by (auto simp: worker_get_next_task_def delivers_def split: option.splits sum.splits prod.splits
        metadata.splits)
qed

lemma worker_loop_unbounded:
  "\<forall>r \<in> set rs. delivers r \<Longrightarrow>
   snd (worker_loop me 0 c rs) = Suspended
   \<and> length (executions (fst (worker_loop me 0 c rs))) = length rs"
proof (induction rs)
  case Nil
  then show ?case by (simp add: worker_get_next_task_def)
next
  case (Cons r rs)
  then show ?case
    by (auto simp: worker_get_next_task_def delivers_def split: option.splits sum.splits prod.splits
        metadata.splits)
qed

lemma worker_loop_never_exhausted: "snd (worker_loop me 0 c rounds) \<noteq> Exhausted"
  by (induction rounds)
    (auto simp: worker_get_next_task_def split: option.splits sum.splits prod.splits
        metadata.splits)

text \<open>
  C6. With a task limit \<open>K > 0\<close> the loop of a worker acknowledges and executes at
  most \<open>K\<close> tasks, whatever the channel does; when the channel delivers \<open>K\<close> tasks
  the loop executes exactly these and is then left, with tasks still waiting or
  not. With the task limit 0 the loop executes every task the channel delivers,
  however many, and is never left because of the limit: it stays suspended in the
  channel.
\<close>

theorem worker_loop_task_limit:
  "(0 < K \<longrightarrow>
      length (executions (fst (worker_loop me K 0 rounds))) \<le> nat K
      \<and> length (acknowledged (fst (worker_loop me K 0 rounds))) \<le> nat K)
   \<and> (0 < K \<and> length rs = nat K \<and> (\<forall>r \<in> set rs. delivers r) \<longrightarrow>
      snd (worker_loop me K 0 (rs @ later)) = Exhausted
      \<and> length (executions (fst (worker_loop me K 0 (rs @ later)))) = nat K)
   \<and> ((\<forall>r \<in> set rs. delivers r) \<longrightarrow>
      snd (worker_loop me 0 0 rs) = Suspended
      \<and> length (executions (fst (worker_loop me 0 0 rs))) = length rs)
   \<and> snd (worker_loop me 0 0 rounds) \<noteq> Exhausted"
  using worker_loop_bounded [of K me 0 rounds] worker_loop_exact [of K 0 rs me later]
    worker_loop_unbounded [of rs me 0] worker_loop_never_exhausted [of me 0 rounds]
  by auto

theorem worker_loop_task_limit_witness:
  "(0::int) < 2 \<and> length [round_ok 1, round_ok 2] = nat 2
   \<and> delivers (round_ok 1) \<and> delivers (round_ok 2) \<and> delivers (round_ok 3)
   \<and> worker_loop 50 2 0 ([round_ok 1, round_ok 2] @ [round_ok 3])
       = ([Sent (Acknowledgement 50 1), Executed 1, Sent (Results 1 (Value 2)),
           Sent (Acknowledgement 50 2), Executed 2, Sent (Results 2 (Value 3))], Exhausted)
   \<and> snd (worker_loop 50 0 0 [round_ok 1, round_ok 2, round_ok 3]) = Suspended
   \<and> executions (fst (worker_loop 50 0 0 [round_ok 1, round_ok 2, round_ok 3])) = [1, 2, 3]"
  using worker_loop_task_limit [of 2 50 "[round_ok 1, round_ok 2, round_ok 3]"
      "[round_ok 1, round_ok 2]" "[round_ok 3]"]
    worker_loop_task_limit [of 2 50 "[round_ok 1, round_ok 2, round_ok 3]"
      "[round_ok 1, round_ok 2, round_ok 3]" "[]"]
  by (simp add: round_ok_def delivers_def fetch_task_def worker_get_next_task_def)

section \<open>Channel errors in a worker\<close>

text \<open>
  C7. On an \<open>EOFError\<close> from the channel the handler of \<open>worker_process\<close> reads
  \<open>error.errno\<close>, which the exception does not have: the function ends with an
  \<open>AttributeError\<close> that nothing catches, not with an exit under an error code of
  the channel. On an \<open>EnvironmentError\<close> the function returns the \<open>errno\<close>; it does
  not call \<open>os._exit\<close> with it, as it does on every other path.
\<close>

theorem worker_process_channel_error:
  "worker_process 50 params_0 (round_ok 1 # round_eof # rest)
     = ([Sent (Acknowledgement 50 1), Executed 1, Sent (Results 1 (Value 2))],
        Uncaught AttributeError)
   \<and> worker_process 50 params_0 (round_epipe # rest) = ([], Returned (Some 32))"
  by (simp add: worker_process_def params_0_def round_ok_def round_eof_def round_epipe_def
      fetch_task_def worker_get_next_task_def handle_error_def)

section \<open>The parameters of the constructor\<close>

text \<open>
  C8. \<open>Pool.__init__\<close> has the parameters \<open>workers\<close>, \<open>task_limit\<close>, \<open>queue\<close>,
  \<open>queueargs\<close>, \<open>initializer\<close> and \<open>initargs\<close>, and no others: a call that passes
  \<open>deinitializer\<close> or \<open>deinitargs\<close>, or a seventh positional argument, raises
  \<open>TypeError\<close>, while the six parameters it has are accepted and passed on.
\<close>

theorem Pool_init_rejects_deinitializer:
  "Pool_init args ((''deinitializer'', v) # kwargs) = Inl TypeError
   \<and> Pool_init args ((''deinitargs'', v) # kwargs) = Inl TypeError
   \<and> Pool_init [a1, a2, a3, a4, a5, a6, a7] kwargs = Inl TypeError
   \<and> Pool_init [PyInt 4, PyInt 10]
        [(''queue'', PyObject 2), (''queueargs'', PyTuple [PyInt 8]),
         (''initializer'', PyObject 0), (''initargs'', PyTuple [PyInt 1])]
       = Inr [PyInt 4, PyInt 10, PyObject 2, PyTuple [PyInt 8], PyObject 0, PyTuple [PyInt 1]]"
  by (simp add: Pool_init_def bind_def Pool_parameters_def)

section \<open>Resolving many tasks\<close>

lemma registry_ok_lookup:
  assumes "registry_ok s" "(k, t) \<in> set (tasks s)"
  shows "ident t = k" "map_of (tasks s) (ident t) = Some t"
proof -
  from assms show k: "ident t = k" by (auto simp: registry_ok_def list_all_iff)
  from assms have "map_of (tasks s) k = Some t" by (simp add: registry_ok_def)
  with k show "map_of (tasks s) (ident t) = Some t" by simp
qed

lemma registry_ok_key: "registry_ok s \<Longrightarrow> map_of (tasks s) k = Some t \<Longrightarrow> ident t = k"
  using registry_ok_lookup(1) map_of_SomeD by fastforce

lemma registry_ok_value:
  "registry_ok s \<Longrightarrow> t \<in> set (map snd (tasks s)) \<Longrightarrow> map_of (tasks s) (ident t) = Some t"
  using registry_ok_lookup(2) by fastforce

lemma registry_ok_idents:
  assumes "registry_ok s"
  shows "distinct (map ident (map snd (tasks s)))"
proof -
  have "map ident (map snd (tasks s)) = map fst (tasks s)"
    using assms by (auto simp: registry_ok_def list_all_iff)
  moreover have "distinct (map fst (tasks s))" using assms by (simp add: registry_ok_def)
  ultimately show ?thesis by (simp only:)
qed

lemma map_of_absent_delete: "map_of xs k = None \<Longrightarrow> AList.delete k xs = xs"
  by (simp add: map_of_eq_None_iff)

lemma map_of_fold_delete:
  "map_of (fold AList.delete ks xs) k = (if k \<in> set ks then None else map_of xs k)"
  by (induction ks arbitrary: xs) (auto simp: delete_conv')

lemma resolved_cong:
  "\<forall>k \<in> set ks. map_of xs k = map_of ys k \<Longrightarrow> resolved res xs ks = resolved res ys ks"
  by (induction ks) (auto simp: resolved_def)

lemma fold_task_done:
  "distinct ks \<Longrightarrow>
   fold (\<lambda>k s. task_done s k res) ks s =
     s\<lparr>tasks := fold AList.delete ks (tasks s),
       effects := effects s @ resolved res (tasks s) ks\<rparr>"
proof (induction ks arbitrary: s)
  case Nil
  then show ?case by (simp add: resolved_def)
next
  case (Cons k ks)
  have same: "resolved res (tasks (task_done s k res)) ks = resolved res (tasks s) ks"
  proof (rule resolved_cong, rule ballI)
    fix k' assume "k' \<in> set ks"
    with Cons.prems have "k' \<noteq> k" by auto
    then show "map_of (tasks (task_done s k res)) k' = map_of (tasks s) k'"
      by (auto simp: task_done_def delete_conv' split: option.splits)
  qed
  show ?case
  proof (cases "map_of (tasks s) k")
    case None
    then have "task_done s k res = s" by (simp add: task_done_def)
    moreover have "AList.delete k (tasks s) = tasks s" using None by (rule map_of_absent_delete)
    moreover have "resolved res (tasks s) (k # ks) = resolved res (tasks s) ks"
      using None by (simp add: resolved_def)
    ultimately show ?thesis using Cons.IH [of s] Cons.prems by simp
  next
    case (Some t)
    then have step: "task_done s k res =
        s\<lparr>tasks := AList.delete k (tasks s),
          effects := effects s @ [SetResults t res, QueueTaskDone]\<rparr>"
      by (simp add: task_done_def)
    have "resolved res (tasks s) (k # ks) = [SetResults t res, QueueTaskDone] @ resolved res (tasks s) ks"
      using Some by (simp add: resolved_def)
    then show ?thesis
      using Cons.IH [of "task_done s k res"] Cons.prems same by (simp add: step)
  qed
qed

lemma count_resolved:
  "count_list (resolved res xs ks) (SetResults t res') =
     (if res' = res then count_list (map (map_of xs) ks) (Some t) else 0)"
  by (induction ks) (auto simp: resolved_def split: option.splits)

lemma stop_worker_effects:
  "tasks (fst (stop_worker w i s m)) = tasks s
   \<and> (\<exists>E. effects (fst (stop_worker w i s m)) = effects s @ E \<and> (\<forall>e \<in> set E. \<exists>wk. e = Stop wk))"
  by (auto simp: stop_worker_def split: metadata.splits option.splits)

lemma stop_each_effects:
  "tasks (fst (stop_each w i s ms)) = tasks s
   \<and> (\<exists>E. effects (fst (stop_each w i s ms)) = effects s @ E \<and> (\<forall>e \<in> set E. \<exists>wk. e = Stop wk))"
proof (induction ms arbitrary: i s)
  case Nil
  then show ?case by simp
next
  case (Cons m ms)
  obtain s' x where sw: "stop_worker w i s m = (s', x)" by (cases "stop_worker w i s m")
  from stop_worker_effects [of w i s m] sw obtain E where
    E: "tasks s' = tasks s" "effects s' = effects s @ E" "\<forall>e \<in> set E. \<exists>wk. e = Stop wk"
    by auto
  show ?case
  proof (cases x)
    case (Some e)
    with sw E show ?thesis by auto
  next
    case None
    from Cons.IH [of "Suc i" s'] obtain E' where
      E': "tasks (fst (stop_each w (Suc i) s' ms)) = tasks s'"
        "effects (fst (stop_each w (Suc i) s' ms)) = effects s' @ E'"
        "\<forall>e \<in> set E'. \<exists>wk. e = Stop wk"
      by auto
    have "effects (fst (stop_each w i s (m # ms))) = effects s @ (E @ E')"
      using sw None E E' by simp
    moreover have "\<forall>e \<in> set (E @ E'). \<exists>wk. e = Stop wk" using E E' by auto
    moreover have "tasks (fst (stop_each w i s (m # ms))) = tasks s" using sw None E E' by simp
    ultimately show ?thesis by blast
  qed
qed

lemma stop_each_tags:
  "\<forall>m \<in> set ms. \<exists>n. m = WorkerId n \<Longrightarrow> snd (stop_each w i s ms) = None"
proof (induction ms arbitrary: i s)
  case Nil
  then show ?case by simp
next
  case (Cons m ms)
  then obtain n where "m = WorkerId n" by auto
  then have "snd (stop_worker w i s m) = None"
    by (simp add: stop_worker_def split: option.splits)
  then show ?case using Cons by (cases "stop_worker w i s m") auto
qed

lemma inspect_tasks_lists:
  assumes "registry_ok s"
  shows "distinct (map ident (fst (inspect_tasks w s)))"
    and "distinct (map ident (snd (inspect_tasks w s)))"
    and "set (fst (inspect_tasks w s)) \<subseteq> set (map snd (tasks s))"
    and "set (snd (inspect_tasks w s)) \<subseteq> set (map snd (tasks s))"
  using registry_ok_idents [OF assms]
  by (auto simp: inspect_tasks_def Let_def distinct_map_filter)

lemma update_tasks_unfold:
  "update_tasks w s =
     stop_each w 0
       (fold (\<lambda>k s. task_done s k cancelled_error) (map ident (snd (inspect_tasks w s)))
          (fold (\<lambda>k s. task_done s k timeout_error) (map ident (fst (inspect_tasks w s))) s))
       (map metadata (fst (inspect_tasks w s) @ snd (inspect_tasks w s)))"
  by (simp add: update_tasks_def Let_def fold_map comp_def split: prod.splits)

lemma count_registered:
  assumes ok: "registry_ok s" and sub: "set ts \<subseteq> set (map snd (tasks s))"
  shows "count_list (map (map_of (tasks s)) (map ident ts)) (Some t) = count_list ts t"
proof -
  have "map (map_of (tasks s)) (map ident ts) = map Some ts"
    using sub registry_ok_value [OF ok] by (induction ts) auto
  moreover have "count_list (map Some ts) (Some t) = count_list ts t"
    by (induction ts) auto
  ultimately show ?thesis by (simp only:)
qed

lemma update_tasks_effects:
  assumes ok: "registry_ok s"
  shows "\<exists>E. effects (fst (update_tasks w s)) =
           effects s @ resolved timeout_error (tasks s) (map ident (fst (inspect_tasks w s)))
             @ resolved cancelled_error
                 (fold AList.delete (map ident (fst (inspect_tasks w s))) (tasks s))
                 (map ident (snd (inspect_tasks w s)))
             @ E
         \<and> (\<forall>e \<in> set E. \<exists>wk. e = Stop wk)"
    and "tasks (fst (update_tasks w s)) =
           fold AList.delete (map ident (snd (inspect_tasks w s)))
             (fold AList.delete (map ident (fst (inspect_tasks w s))) (tasks s))"
proof -
  let ?T = "map ident (fst (inspect_tasks w s))" and ?C = "map ident (snd (inspect_tasks w s))"
  let ?s1 = "fold (\<lambda>k s. task_done s k timeout_error) ?T s"
  let ?s2 = "fold (\<lambda>k s. task_done s k cancelled_error) ?C ?s1"
  have s1: "?s1 = s\<lparr>tasks := fold AList.delete ?T (tasks s),
      effects := effects s @ resolved timeout_error (tasks s) ?T\<rparr>"
    using inspect_tasks_lists(1) [OF ok] by (rule fold_task_done)
  have s2: "?s2 = ?s1\<lparr>tasks := fold AList.delete ?C (tasks ?s1),
      effects := effects ?s1 @ resolved cancelled_error (tasks ?s1) ?C\<rparr>"
    using inspect_tasks_lists(2) [OF ok] by (rule fold_task_done)
  have t2: "tasks ?s2 = fold AList.delete ?C (fold AList.delete ?T (tasks s))"
    by (subst s2, subst s1) simp
  have e2: "effects ?s2 = effects s @ resolved timeout_error (tasks s) ?T
      @ resolved cancelled_error (fold AList.delete ?T (tasks s)) ?C"
    by (subst s2, subst s1, subst s1) simp
  have u: "update_tasks w s = stop_each w 0 ?s2
      (map metadata (fst (inspect_tasks w s) @ snd (inspect_tasks w s)))"
    by (rule update_tasks_unfold)
  from stop_each_effects [of w 0 ?s2 "map metadata (fst (inspect_tasks w s) @ snd (inspect_tasks w s))"]
  obtain E where E: "tasks (fst (update_tasks w s)) = tasks ?s2"
      "effects (fst (update_tasks w s)) = effects ?s2 @ E" "\<forall>e \<in> set E. \<exists>wk. e = Stop wk"
    unfolding u by blast
  from E(2,3) e2 show "\<exists>E. effects (fst (update_tasks w s)) =
           effects s @ resolved timeout_error (tasks s) ?T
             @ resolved cancelled_error (fold AList.delete ?T (tasks s)) ?C @ E
         \<and> (\<forall>e \<in> set E. \<exists>wk. e = Stop wk)"
    by auto
  from E(1) t2 show "tasks (fst (update_tasks w s)) =
      fold AList.delete ?C (fold AList.delete ?T (tasks s))" by simp
qed

section \<open>A task both timed out and cancelled\<close>

lemma count_stops: "\<forall>e \<in> set E. \<exists>wk. e = Stop wk \<Longrightarrow> count_list E (SetResults t r) = 0"
  by (auto simp: count_list_0_iff)

lemma distinct_count: "distinct xs \<Longrightarrow> x \<in> set xs \<Longrightarrow> count_list xs x = 1"
  by (induction xs) auto

lemma distinct_count_one: "distinct (map f xs) \<Longrightarrow> x \<in> set xs \<Longrightarrow> count_list xs x = 1"
  by (rule distinct_count) (simp_all add: distinct_map)

text \<open>
  C9. Let a registered task be timed out and, at the same scan, started and
  cancelled. Then \<open>update_tasks\<close> resolves it exactly once, with the Timeout error:
  the calls it adds to the log hold \<open>set_results\<close> on that task once, with
  \<open>TimeoutError('Timeout')\<close>, and with no other result; the task leaves the
  registry. The task stands once in each of the two lists of \<open>inspect_tasks\<close>, and
  the keys \<open>stop_worker\<close> is called with, in order, are the \<open>_metadata\<close> of the
  tasks of the first list followed by those of the second: the worker tag of the
  task is among them twice. When every listed task carries a worker tag, no call
  raises, so none is skipped.
\<close>

theorem update_tasks_timeout_wins:
  fixes s :: "('p, 'r) pool"
  assumes ok: "registry_ok s" and reg: "map_of (tasks s) k = Some t"
    and timed: "has_timeout (started w) (clock w t) t"
    and canc: "started w t \<and> cancelled t"
  shows "(\<exists>E. effects (fst (update_tasks w s)) = effects s @ E
            \<and> count_list E (SetResults t timeout_error) = 1
            \<and> (\<forall>r. r \<noteq> timeout_error \<longrightarrow> SetResults t r \<notin> set E))
     \<and> map_of (tasks (fst (update_tasks w s))) k = None
     \<and> count_list (fst (inspect_tasks w s)) t = 1
     \<and> count_list (snd (inspect_tasks w s)) t = 1
     \<and> update_tasks w s =
         stop_each w 0
           (fold (\<lambda>k s. task_done s k cancelled_error) (map ident (snd (inspect_tasks w s)))
              (fold (\<lambda>k s. task_done s k timeout_error) (map ident (fst (inspect_tasks w s))) s))
           (map metadata (fst (inspect_tasks w s) @ snd (inspect_tasks w s)))
     \<and> ((\<forall>u \<in> set (fst (inspect_tasks w s) @ snd (inspect_tasks w s)). \<exists>n. metadata u = WorkerId n)
          \<longrightarrow> snd (update_tasks w s) = None)"
proof -
  let ?T = "fst (inspect_tasks w s)" and ?C = "snd (inspect_tasks w s)"
  let ?xs1 = "fold AList.delete (map ident ?T) (tasks s)"
  have key: "ident t = k" using ok reg by (rule registry_ok_key)
  have val: "t \<in> set (map snd (tasks s))" using map_of_SomeD [OF reg] by force
  have inT: "t \<in> set ?T" using val timed by (simp add: inspect_tasks_def Let_def)
  have inC: "t \<in> set ?C" using val canc by (simp add: inspect_tasks_def Let_def)
  have cT: "count_list ?T t = 1"
    using inspect_tasks_lists(1) [OF ok] inT by (rule distinct_count_one)
  have cC: "count_list ?C t = 1"
    using inspect_tasks_lists(2) [OF ok] inC by (rule distinct_count_one)
  have gone: "\<And>k'. map_of ?xs1 k' \<noteq> Some t"
  proof
    fix k' assume a: "map_of ?xs1 k' = Some t"
    then have "k' \<notin> set (map ident ?T)" and "map_of (tasks s) k' = Some t"
      by (auto simp: map_of_fold_delete split: if_splits)
    then have "ident t \<notin> set (map ident ?T)" using registry_ok_key [OF ok] by blast
    with inT show False by simp
  qed
  from update_tasks_effects(1) [OF ok, of w] obtain E where
    E: "effects (fst (update_tasks w s)) =
          effects s @ resolved timeout_error (tasks s) (map ident ?T)
            @ resolved cancelled_error ?xs1 (map ident ?C) @ E"
       "\<forall>e \<in> set E. \<exists>wk. e = Stop wk"
    by blast
  let ?E = "resolved timeout_error (tasks s) (map ident ?T)
            @ resolved cancelled_error ?xs1 (map ident ?C) @ E"
  have first: "count_list (resolved timeout_error (tasks s) (map ident ?T)) (SetResults t timeout_error) = 1"
    using count_registered [OF ok inspect_tasks_lists(3) [OF ok], of w t] cT
    by (simp add: count_resolved)
  have second: "\<And>r :: 'r results. count_list (resolved cancelled_error ?xs1 (map ident ?C)) (SetResults t r) = 0"
  proof -
    fix r :: "'r results"
    have "Some t \<notin> set (map (map_of ?xs1) (map ident ?C))"
    proof
      assume "Some t \<in> set (map (map_of ?xs1) (map ident ?C))"
      then obtain k' where "map_of ?xs1 k' = Some t" by auto
      with gone show False by blast
    qed
    then have "count_list (map (map_of ?xs1) (map ident ?C)) (Some t) = 0"
      using count_list_0_iff by fastforce
    then show "count_list (resolved cancelled_error ?xs1 (map ident ?C)) (SetResults t r) = 0"
      by (simp add: count_resolved)
  qed
  have third: "\<And>r :: 'r results. count_list E (SetResults t r) = 0" using E(2) by (rule count_stops)
  have once: "count_list ?E (SetResults t timeout_error) = 1"
    using first second third by simp
  have others: "\<forall>r. r \<noteq> timeout_error \<longrightarrow> SetResults t r \<notin> set ?E"
  proof (intro allI impI)
    fix r :: "'r results" assume "r \<noteq> timeout_error"
    then have "count_list (resolved timeout_error (tasks s) (map ident ?T)) (SetResults t r) = 0"
      by (simp add: count_resolved)
    with second third have "count_list ?E (SetResults t r) = 0" by simp
    then show "SetResults t r \<notin> set ?E" using count_list_0_iff by fastforce
  qed
  have part1: "\<exists>E. effects (fst (update_tasks w s)) = effects s @ E
            \<and> count_list E (SetResults t timeout_error) = 1
            \<and> (\<forall>r. r \<noteq> timeout_error \<longrightarrow> SetResults t r \<notin> set E)"
    using E(1) once others by blast
  have part2: "map_of (tasks (fst (update_tasks w s))) k = None"
    using inT key by (auto simp: update_tasks_effects(2) [OF ok] map_of_fold_delete)
  have part5: "(\<forall>u \<in> set (?T @ ?C). \<exists>n. metadata u = WorkerId n) \<longrightarrow> snd (update_tasks w s) = None"
  proof
    assume "\<forall>u \<in> set (?T @ ?C). \<exists>n. metadata u = WorkerId n"
    then have "\<forall>m \<in> set (map metadata (?T @ ?C)). \<exists>n. m = WorkerId n" by auto
    then show "snd (update_tasks w s) = None"
      unfolding update_tasks_unfold by (rule stop_each_tags)
  qed
  show ?thesis using part1 part2 cT cC update_tasks_unfold [of w s] part5 by blast
qed


theorem update_tasks_timeout_wins_witness:
  "registry_ok pool_t \<and> map_of (tasks pool_t) 3 = Some task_t
   \<and> has_timeout (started world_a) (clock world_a task_t) task_t
   \<and> started world_a task_t \<and> cancelled task_t
   \<and> inspect_tasks world_a pool_t = ([task_t], [task_t])
   \<and> update_tasks world_a pool_t
       = (pool_t\<lparr>tasks := [], workers := [],
                   effects := [SetResults task_t timeout_error, QueueTaskDone, Stop worker_40]\<rparr>,
          None)"
  using update_tasks_timeout_wins [of pool_t 3 task_t world_a]
  by (simp add: pool_t_def task_t_def world_a_def registry_ok_def timestamp_started_def
      has_timeout_def truthy_def inspect_tasks_def update_tasks_def task_done_def
      stop_worker_def Let_def)

section \<open>Expired workers\<close>

lemma registry_ok_delete: "registry_ok s \<Longrightarrow> registry_ok (s\<lparr>tasks := AList.delete k (tasks s), effects := e\<rparr>)"
proof -
  assume ok: "registry_ok s"
  then have "distinct (map fst (AList.delete k (tasks s)))"
    by (simp add: registry_ok_def distinct_delete)
  moreover have "list_all (\<lambda>(k, t). ident t = k) (AList.delete k (tasks s))"
    using ok by (auto simp: registry_ok_def list_all_iff AList.delete_eq)
  ultimately show ?thesis by (simp add: registry_ok_def)
qed

lemma find_after_delete:
  assumes "\<forall>v. (k, v) \<in> set xs \<longrightarrow> \<not> P v"
  shows "find P (map snd (AList.delete k xs)) = find P (map snd xs)"
  using assms by (induction xs) auto

lemma expirations_cong:
  "\<forall>d \<in> set dead. find (\<lambda>task. metadata task = WorkerId (fst d)) (map snd xs)
       = find (\<lambda>task. metadata task = WorkerId (fst d)) (map snd ys) \<Longrightarrow>
   expirations xs dead = expirations ys dead"
  by (induction dead) (auto simp: expirations_def)

lemma foldl_expire:
  fixes s :: "('p, 'r) pool"
  shows "registry_ok s \<Longrightarrow> distinct (map fst dead) \<Longrightarrow>
   effects (foldl expire s dead) = effects s @ expirations (tasks s) dead
   \<and> workers (foldl expire s dead) = workers s
   \<and> workers_number (foldl expire s dead) = workers_number s"
proof (induction dead arbitrary: s)
  case Nil
  then show ?case by (simp add: expirations_def)
next
  case (Cons d dead)
  let ?P = "\<lambda>n task. metadata task = WorkerId n"
  show ?case
  proof (cases "worker_id_lookup s (fst d)")
    case None
    then have e: "expire s d = s" by (simp add: expire_def)
    have x: "expirations (tasks s) (d # dead) = expirations (tasks s) dead"
      using None by (simp add: expirations_def worker_id_lookup_def)
    have f: "foldl expire s (d # dead) = foldl expire s dead" using e by simp
    have "distinct (map fst dead)" using Cons.prems(2) by simp
    with Cons.IH [OF Cons.prems(1)] show ?thesis unfolding f x by blast
  next
    case (Some t)
    from worker_id_lookup_SomeD [OF Some] have tag: "metadata t = WorkerId (fst d)"
      and val: "t \<in> set (map snd (tasks s))" by auto
    have reg: "map_of (tasks s) (ident t) = Some t"
      using Cons.prems(1) val by (rule registry_ok_value)
    let ?res = "Error (ProcessExpired ''Abnormal termination'' (snd d)) :: 'r results"
    let ?s' = "s\<lparr>tasks := AList.delete (ident t) (tasks s),
        effects := effects s @ [SetResults t ?res, QueueTaskDone]\<rparr>"
    have e: "expire s d = ?s'"
      using Some reg by (simp add: expire_def task_done_def)
    have ok': "registry_ok ?s'" using Cons.prems(1) by (rule registry_ok_delete)
    have same: "expirations (tasks ?s') dead = expirations (tasks s) dead"
    proof (rule expirations_cong, rule ballI)
      fix d' assume "d' \<in> set dead"
      then have "fst d' \<in> set (map fst dead)" by simp
      moreover have "fst d \<notin> set (map fst dead)" using Cons.prems(2) by simp
      ultimately have ne: "fst d' \<noteq> fst d" by metis
      have "\<forall>v. (ident t, v) \<in> set (tasks s) \<longrightarrow> \<not> ?P (fst d') v"
      proof (intro allI impI)
        fix v assume "(ident t, v) \<in> set (tasks s)"
        then have "map_of (tasks s) (ident t) = Some v"
          using Cons.prems(1) by (simp add: registry_ok_def)
        with reg have "v = t" by simp
        with tag ne show "\<not> ?P (fst d') v" by simp
      qed
      then show "find (?P (fst d')) (map snd (tasks ?s')) = find (?P (fst d')) (map snd (tasks s))"
        using find_after_delete [of "ident t" "tasks s" "?P (fst d')"] by simp
    qed
    have head: "expirations (tasks s) (d # dead)
        = [SetResults t ?res, QueueTaskDone] @ expirations (tasks s) dead"
      using Some by (simp add: expirations_def worker_id_lookup_def)
    from Cons.IH [OF ok'] Cons.prems(2) have
      "effects (foldl expire ?s' dead) = effects ?s' @ expirations (tasks ?s') dead
       \<and> workers (foldl expire ?s' dead) = workers ?s'
       \<and> workers_number (foldl expire ?s' dead) = workers_number ?s'"
      by simp
    moreover have "foldl expire s (d # dead) = foldl expire ?s' dead" using e by simp
    ultimately show ?thesis unfolding same head by simp
  qed
qed

lemma workers_ok_lookup:
  "workers_ok s \<Longrightarrow> (k, wk) \<in> set (workers s) \<Longrightarrow> pid wk = k \<and> map_of (workers s) k = Some wk"
  by (auto simp: workers_ok_def list_all_iff)

lemma pop_expired_ok:
  "distinct (map pid ws) \<Longrightarrow> \<forall>wk \<in> set ws. map_of (workers s) (pid wk) \<noteq> None \<Longrightarrow>
   pop_expired s ws = (s\<lparr>workers := fold AList.delete (map pid ws) (workers s)\<rparr>, None)"
proof (induction ws arbitrary: s)
  case Nil
  then show ?case by simp
next
  case (Cons wk ws)
  let ?s' = "s\<lparr>workers := AList.delete (pid wk) (workers s)\<rparr>"
  have "\<forall>wk' \<in> set ws. map_of (workers ?s') (pid wk') \<noteq> None"
  proof
    fix wk' assume a: "wk' \<in> set ws"
    then have "pid wk' \<in> set (map pid ws)" by simp
    moreover have "pid wk \<notin> set (map pid ws)" using Cons.prems(1) by simp
    ultimately have "pid wk' \<noteq> pid wk" by metis
    then show "map_of (workers ?s') (pid wk') \<noteq> None" using Cons.prems(2) a by simp
  qed
  moreover have "distinct (map pid ws)" using Cons.prems(1) by simp
  ultimately have "pop_expired ?s' ws
      = (?s'\<lparr>workers := fold AList.delete (map pid ws) (workers ?s')\<rparr>, None)"
    by (rule Cons.IH [rotated])
  moreover obtain x where "map_of (workers s) (pid wk) = Some x" using Cons.prems(2) by auto
  ultimately show ?case by simp
qed

lemma fold_delete_filter:
  "fold AList.delete ks xs = filter (\<lambda>(k, v). k \<notin> set ks) xs"
proof (induction ks arbitrary: xs)
  case Nil
  then show ?case by simp
next
  case (Cons k ks)
  have "filter (\<lambda>(k', v). k' \<notin> set ks) (AList.delete k xs)
      = filter (\<lambda>(k', v). k' \<notin> set (k # ks)) xs"
    by (induction xs) auto
  with Cons.IH [of "AList.delete k xs"] show ?case by simp
qed

lemma expired_removed:
  assumes ok: "workers_ok s"
  shows "fold AList.delete (map pid (filter (\<lambda>wk. \<not> is_alive wk) (map snd (workers s)))) (workers s)
      = filter (\<lambda>(k, wk). is_alive wk) (workers s)"
proof -
  let ?ks = "map pid (filter (\<lambda>wk. \<not> is_alive wk) (map snd (workers s)))"
  have "\<forall>x \<in> set (workers s). (case x of (k, v) \<Rightarrow> k \<notin> set ?ks) = (case x of (k, wk) \<Rightarrow> is_alive wk)"
  proof
    fix x assume x: "x \<in> set (workers s)"
    obtain k wk where kv: "x = (k, wk)" by (cases x)
    have pk: "pid wk = k" using workers_ok_lookup [OF ok] x kv by blast
    have "k \<in> set ?ks \<longleftrightarrow> \<not> is_alive wk"
    proof
      assume "k \<in> set ?ks"
      then obtain k' wk' where w': "(k', wk') \<in> set (workers s)" "\<not> is_alive wk'" "pid wk' = k"
        by auto
      then have "k' = k" using workers_ok_lookup [OF ok, of k' wk'] by simp
      with w' have "map_of (workers s) k = Some wk'" using workers_ok_lookup [OF ok] by blast
      moreover have "map_of (workers s) k = Some wk"
        using workers_ok_lookup [OF ok] x kv by blast
      ultimately show "\<not> is_alive wk" using w'(2) by simp
    next
      assume "\<not> is_alive wk"
      with x kv pk show "k \<in> set ?ks" by force
    qed
    then show "(case x of (k, v) \<Rightarrow> k \<notin> set ?ks) = (case x of (k, wk) \<Rightarrow> is_alive wk)"
      using kv by simp
  qed
  then have "filter (\<lambda>(k, v). k \<notin> set ?ks) (workers s) = filter (\<lambda>(k, wk). is_alive wk) (workers s)"
    using filter_cong [OF refl, of "workers s" "\<lambda>(k, v). k \<notin> set ?ks" "\<lambda>(k, wk). is_alive wk"]
    by blast
  then show ?thesis by (simp only: fold_delete_filter)
qed

lemma inspect_workers_ok:
  assumes ok: "workers_ok s"
  shows "inspect_workers s =
     (s\<lparr>workers := filter (\<lambda>(k, wk). is_alive wk) (workers s)\<rparr>,
      Inr (map (\<lambda>wk. (pid wk, exitcode wk))
             (filter (\<lambda>wk. exitcode wk \<noteq> Some 0)
                (filter (\<lambda>wk. \<not> is_alive wk) (map snd (workers s))))))"
proof -
  let ?ex = "filter (\<lambda>wk. \<not> is_alive wk) (map snd (workers s))"
  have pids: "map pid (map snd (workers s)) = map fst (workers s)"
    using ok by (auto simp: workers_ok_def list_all_iff)
  have "distinct (map pid (map snd (workers s)))"
    using ok unfolding pids by (simp add: workers_ok_def)
  then have d: "distinct (map pid ?ex)" by (rule distinct_map_filter)
  have "\<forall>wk \<in> set ?ex. map_of (workers s) (pid wk) \<noteq> None"
    using workers_ok_lookup [OF ok] by fastforce
  with d have "pop_expired s ?ex = (s\<lparr>workers := fold AList.delete (map pid ?ex) (workers s)\<rparr>, None)"
    by (rule pop_expired_ok)
  then show ?thesis
    by (simp add: inspect_workers_def Let_def expired_removed [OF ok])
qed

lemma dead_pids_distinct:
  assumes ok: "workers_ok s"
  shows "distinct (map fst (map (\<lambda>wk. (pid wk, exitcode wk))
             (filter (\<lambda>wk. exitcode wk \<noteq> Some 0)
                (filter (\<lambda>wk. \<not> is_alive wk) (map snd (workers s))))))"
proof -
  have pids: "map pid (map snd (workers s)) = map fst (workers s)"
    using ok by (auto simp: workers_ok_def list_all_iff)
  have "distinct (map pid (map snd (workers s)))"
    using ok unfolding pids by (simp add: workers_ok_def)
  then have "distinct (map pid (filter (\<lambda>wk. exitcode wk \<noteq> Some 0)
                (filter (\<lambda>wk. \<not> is_alive wk) (map snd (workers s)))))"
    by (intro distinct_map_filter)
  then show ?thesis by (simp add: comp_def)
qed

lemma fold_new_worker:
  "fold (\<lambda>i. new_worker (f i)) js s =
     s\<lparr>workers := fold (\<lambda>i. AList.update (pid (f i)) (f i)) js (workers s),
       effects := effects s @ map (\<lambda>i. Spawn (f i)) js\<rparr>"
  by (induction js arbitrary: s) (simp_all add: new_worker_def)

lemma length_update_fresh: "k \<notin> fst ` set xs \<Longrightarrow> length (AList.update k v xs) = Suc (length xs)"
  by (induction xs) auto

lemma length_fold_update:
  "distinct (map g js) \<Longrightarrow> \<forall>i \<in> set js. g i \<notin> fst ` set xs \<Longrightarrow>
   length (fold (\<lambda>i. AList.update (g i) (h i)) js xs) = length xs + length js"
proof (induction js arbitrary: xs)
  case Nil
  then show ?case by simp
next
  case (Cons j js)
  have "\<forall>i \<in> set js. g i \<notin> fst ` set (AList.update (g j) (h j) xs)"
  proof
    fix i assume i: "i \<in> set js"
    then have "g i \<in> set (map g js)" by simp
    moreover have "g j \<notin> set (map g js)" using Cons.prems(1) by simp
    ultimately have "g i \<noteq> g j" by metis
    moreover have "g i \<notin> fst ` set xs" using Cons.prems(2) i by simp
    ultimately show "g i \<notin> fst ` set (AList.update (g j) (h j) xs)"
      by (simp add: dom_update)
  qed
  moreover have "distinct (map g js)" using Cons.prems(1) by simp
  ultimately have "length (fold (\<lambda>i. AList.update (g i) (h i)) js (AList.update (g j) (h j) xs))
      = length (AList.update (g j) (h j) xs) + length js"
    by (rule Cons.IH [rotated])
  moreover have "length (AList.update (g j) (h j) xs) = Suc (length xs)"
    using Cons.prems(2) by (simp add: length_update_fresh)
  ultimately show ?case by simp
qed

lemma expired_workers_eq:
  "expired_workers s =
     map (\<lambda>wk. (pid wk, exitcode wk))
       (filter (\<lambda>wk. exitcode wk \<noteq> Some 0)
          (filter (\<lambda>wk. \<not> is_alive wk) (map snd (workers s))))"
  by (simp add: expired_workers_def conj_commute)

lemma update_workers_ok:
  fixes s :: "('p, 'r) pool"
  assumes reg: "registry_ok s" and ok: "workers_ok s"
  shows "update_workers w s =
     (s\<lparr>tasks := tasks (foldl expire (s\<lparr>workers := live_workers s\<rparr>) (expired_workers s)),
        workers := fold (\<lambda>i. AList.update (pid (spawn w i)) (spawn w i)) [0..<shortage s]
                     (live_workers s),
        effects := effects s @ expirations (tasks s) (expired_workers s)
                     @ map (\<lambda>i. Spawn (spawn w i)) [0..<shortage s]\<rparr>, None)"
proof -
  let ?s1 = "s\<lparr>workers := live_workers s\<rparr>"
  let ?s2 = "foldl expire ?s1 (expired_workers s)"
  have insp: "inspect_workers s = (?s1, Inr (expired_workers s))"
    using inspect_workers_ok [OF ok] by (simp add: expired_workers_eq live_workers_def)
  have reg1: "registry_ok ?s1" using reg by (simp add: registry_ok_def)
  have dd: "distinct (map fst (expired_workers s))"
    using dead_pids_distinct [OF ok] by (simp only: expired_workers_eq)
  from foldl_expire [OF reg1 dd] have
    e2: "effects ?s2 = effects s @ expirations (tasks s) (expired_workers s)"
    and w2: "workers ?s2 = live_workers s"
    and n2: "workers_number ?s2 = workers_number s"
    by simp_all
  have "update_workers w s = (create_workers w ?s2, None)"
    by (simp add: update_workers_def insp)
  moreover have "create_workers w ?s2 =
      ?s2\<lparr>workers := fold (\<lambda>i. AList.update (pid (spawn w i)) (spawn w i)) [0..<shortage s]
                     (live_workers s),
        effects := effects s @ expirations (tasks s) (expired_workers s)
                     @ map (\<lambda>i. Spawn (spawn w i)) [0..<shortage s]\<rparr>"
    unfolding create_workers_def fold_new_worker by (simp add: e2 w2 n2 shortage_def)
  moreover have "?s2\<lparr>workers := ws, effects := es\<rparr>
      = s\<lparr>tasks := tasks ?s2, workers := ws, effects := es\<rparr>" for ws es
    using n2 by (cases ?s2, cases s) simp
  ultimately show ?thesis by simp
qed

lemma expirations_member:
  "SetResults t r \<in> set (expirations xs dead) \<longleftrightarrow>
     (\<exists>d \<in> set dead. find (\<lambda>task. metadata task = WorkerId (fst d)) (map snd xs) = Some t
        \<and> r = Error (ProcessExpired ''Abnormal termination'' (snd d)))"
proof (induction dead)
  case Nil
  then show ?case by (simp add: expirations_def)
next
  case (Cons d dead)
  have split: "set (expirations xs (d # dead)) = set (expirations xs [d]) \<union> set (expirations xs dead)"
    by (simp add: expirations_def)
  have head: "SetResults t r \<in> set (expirations xs [d]) \<longleftrightarrow>
      find (\<lambda>task. metadata task = WorkerId (fst d)) (map snd xs) = Some t
        \<and> r = Error (ProcessExpired ''Abnormal termination'' (snd d))"
    by (cases "find (\<lambda>task. metadata task = WorkerId (fst d)) (map snd xs)")
      (auto simp: expirations_def)
  have "SetResults t r \<in> set (expirations xs (d # dead)) \<longleftrightarrow>
      (find (\<lambda>task. metadata task = WorkerId (fst d)) (map snd xs) = Some t
        \<and> r = Error (ProcessExpired ''Abnormal termination'' (snd d)))
      \<or> (\<exists>d \<in> set dead. find (\<lambda>task. metadata task = WorkerId (fst d)) (map snd xs) = Some t
        \<and> r = Error (ProcessExpired ''Abnormal termination'' (snd d)))"
    by (simp only: split Un_iff head Cons.IH)
  then show ?case by simp
qed

lemma expired_workers_member:
  "d \<in> set (expired_workers s) \<longleftrightarrow>
     (\<exists>wk \<in> set (map snd (workers s)). \<not> is_alive wk \<and> exitcode wk \<noteq> Some 0
        \<and> d = (pid wk, exitcode wk))"
  by (auto simp: expired_workers_def)

text \<open>
  C5. In well-formed registries \<open>update_workers\<close> raises nothing, and the calls it
  adds to the log are these: for every worker of the registry that is not alive and
  whose exit code is not \<open>os.EX_OK\<close>, in the order of the registry, and only when
  some registered task carries its PID as \<open>_metadata\<close>, \<open>set_results\<close> on the first
  such task with \<open>ProcessExpired\<close> carrying that exit code, and the queue's
  callback; then one spawn for each worker missing from the configured count.
  So every dead worker with a non-success code and a tagged task has a task
  resolved with its exit code, and every resolution made belongs to such a worker:
  a worker that exited with \<open>os.EX_OK\<close> expires no task. The Worker Registry ends
  as the live workers plus the spawned ones; when the spawned PIDs are new and
  distinct its size is the configured count (or the number of live workers, if
  that is larger).
\<close>

theorem update_workers_expired:
  fixes s :: "('p, 'r) pool"
  assumes reg: "registry_ok s" and ok: "workers_ok s"
  shows "snd (update_workers w s) = None
   \<and> effects (fst (update_workers w s)) =
       effects s @ expirations (tasks s) (expired_workers s)
         @ map (\<lambda>i. Spawn (spawn w i)) [0..<shortage s]
   \<and> (\<forall>wk \<in> set (map snd (workers s)).
        \<not> is_alive wk \<and> exitcode wk \<noteq> Some 0
        \<and> (\<exists>t \<in> set (map snd (tasks s)). metadata t = WorkerId (pid wk)) \<longrightarrow>
        (\<exists>t \<in> set (map snd (tasks s)). metadata t = WorkerId (pid wk)
           \<and> SetResults t (Error (ProcessExpired ''Abnormal termination'' (exitcode wk)))
               \<in> set (expirations (tasks s) (expired_workers s) :: ('p, 'r) effect list)))
   \<and> (\<forall>t r. SetResults t r \<in> set (expirations (tasks s) (expired_workers s) :: ('p, 'r) effect list) \<longrightarrow>
        t \<in> set (map snd (tasks s))
        \<and> (\<exists>wk \<in> set (map snd (workers s)).
              \<not> is_alive wk \<and> exitcode wk \<noteq> Some 0 \<and> metadata t = WorkerId (pid wk)
              \<and> r = Error (ProcessExpired ''Abnormal termination'' (exitcode wk))))
   \<and> workers (fst (update_workers w s)) =
       fold (\<lambda>i. AList.update (pid (spawn w i)) (spawn w i)) [0..<shortage s] (live_workers s)
   \<and> (distinct (map (\<lambda>i. pid (spawn w i)) [0..<shortage s])
        \<and> (\<forall>i < shortage s. pid (spawn w i) \<notin> fst ` set (live_workers s)) \<longrightarrow>
        int (length (workers (fst (update_workers w s))))
          = max (workers_number s) (int (length (live_workers s))))"
proof -
  note u = update_workers_ok [OF reg ok, of w]
  have p1: "snd (update_workers w s) = None" by (simp add: u)
  have p2: "effects (fst (update_workers w s)) =
       effects s @ expirations (tasks s) (expired_workers s)
         @ map (\<lambda>i. Spawn (spawn w i)) [0..<shortage s]"
    by (simp add: u)
  have p3: "\<forall>wk \<in> set (map snd (workers s)).
        \<not> is_alive wk \<and> exitcode wk \<noteq> Some 0
        \<and> (\<exists>t \<in> set (map snd (tasks s)). metadata t = WorkerId (pid wk)) \<longrightarrow>
        (\<exists>t \<in> set (map snd (tasks s)). metadata t = WorkerId (pid wk)
           \<and> SetResults t (Error (ProcessExpired ''Abnormal termination'' (exitcode wk)))
               \<in> set (expirations (tasks s) (expired_workers s) :: ('p, 'r) effect list))"
  proof (intro ballI impI)
    fix wk
    assume wk: "wk \<in> set (map snd (workers s))"
      and h: "\<not> is_alive wk \<and> exitcode wk \<noteq> Some 0
        \<and> (\<exists>t \<in> set (map snd (tasks s)). metadata t = WorkerId (pid wk))"
    then obtain t0 where t0: "t0 \<in> set (map snd (tasks s))" "metadata t0 = WorkerId (pid wk)"
      by blast
    from find_exists [of t0 "map snd (tasks s)" "\<lambda>task. metadata task = WorkerId (pid wk)", OF t0]
    obtain t where t: "find (\<lambda>task. metadata task = WorkerId (pid wk)) (map snd (tasks s)) = Some t"
      "metadata t = WorkerId (pid wk)" "t \<in> set (map snd (tasks s))"
      by blast
    have d: "(pid wk, exitcode wk) \<in> set (expired_workers s)"
      using wk h by (auto simp: expired_workers_member)
    have "SetResults t (Error (ProcessExpired ''Abnormal termination'' (exitcode wk)))
        \<in> set (expirations (tasks s) (expired_workers s) :: ('p, 'r) effect list)"
      unfolding expirations_member using d t(1) by force
    with t show "\<exists>t \<in> set (map snd (tasks s)). metadata t = WorkerId (pid wk)
           \<and> SetResults t (Error (ProcessExpired ''Abnormal termination'' (exitcode wk)))
               \<in> set (expirations (tasks s) (expired_workers s) :: ('p, 'r) effect list)"
      by blast
  qed
  have p4: "\<forall>t r. SetResults t r \<in> set (expirations (tasks s) (expired_workers s) :: ('p, 'r) effect list) \<longrightarrow>
        t \<in> set (map snd (tasks s))
        \<and> (\<exists>wk \<in> set (map snd (workers s)).
              \<not> is_alive wk \<and> exitcode wk \<noteq> Some 0 \<and> metadata t = WorkerId (pid wk)
              \<and> r = Error (ProcessExpired ''Abnormal termination'' (exitcode wk)))"
  proof (intro allI impI)
    fix t and r :: "'r results"
    assume "SetResults t r \<in> set (expirations (tasks s) (expired_workers s) :: ('p, 'r) effect list)"
    then obtain d where d: "d \<in> set (expired_workers s)"
      "find (\<lambda>task. metadata task = WorkerId (fst d)) (map snd (tasks s)) = Some t"
      "r = Error (ProcessExpired ''Abnormal termination'' (snd d))"
      unfolding expirations_member by blast
    from find_SomeD [OF d(2)] have t: "metadata t = WorkerId (fst d)" "t \<in> set (map snd (tasks s))"
      by auto
    from d(1) obtain wk where wk: "wk \<in> set (map snd (workers s))" "\<not> is_alive wk"
      "exitcode wk \<noteq> Some 0" "d = (pid wk, exitcode wk)"
      unfolding expired_workers_member by blast
    show "t \<in> set (map snd (tasks s))
        \<and> (\<exists>wk \<in> set (map snd (workers s)).
              \<not> is_alive wk \<and> exitcode wk \<noteq> Some 0 \<and> metadata t = WorkerId (pid wk)
              \<and> r = Error (ProcessExpired ''Abnormal termination'' (exitcode wk)))"
      using t wk d(3) by auto
  qed
  have p5: "workers (fst (update_workers w s)) =
       fold (\<lambda>i. AList.update (pid (spawn w i)) (spawn w i)) [0..<shortage s] (live_workers s)"
    by (simp add: u)
  have p6: "distinct (map (\<lambda>i. pid (spawn w i)) [0..<shortage s])
        \<and> (\<forall>i < shortage s. pid (spawn w i) \<notin> fst ` set (live_workers s)) \<longrightarrow>
        int (length (workers (fst (update_workers w s))))
          = max (workers_number s) (int (length (live_workers s)))"
  proof
    assume h: "distinct (map (\<lambda>i. pid (spawn w i)) [0..<shortage s])
        \<and> (\<forall>i < shortage s. pid (spawn w i) \<notin> fst ` set (live_workers s))"
    then have "length (fold (\<lambda>i. AList.update (pid (spawn w i)) (spawn w i)) [0..<shortage s]
        (live_workers s)) = length (live_workers s) + length [0..<shortage s]"
      by (intro length_fold_update) auto
    then have "length (workers (fst (update_workers w s))) = length (live_workers s) + shortage s"
      by (simp add: p5)
    then show "int (length (workers (fst (update_workers w s))))
          = max (workers_number s) (int (length (live_workers s)))"
      by (simp add: shortage_def)
  qed
  from p1 p2 p3 p4 p5 p6 show ?thesis by blast
qed


theorem update_workers_expired_witness:
  "registry_ok pool_w \<and> workers_ok pool_w
   \<and> update_workers world_a pool_w
       = (\<lparr>tasks = [(7, task_a), (12, task_42)],
           workers = [(40, worker_40), (100, \<lparr>pid = 100, is_alive = True, exitcode = None\<rparr>),
                      (101, \<lparr>pid = 101, is_alive = True, exitcode = None\<rparr>)],
           workers_number = 3,
           effects = [SetResults task_41 (Error (ProcessExpired ''Abnormal termination'' (Some 123))),
                      QueueTaskDone,
                      Spawn \<lparr>pid = 100, is_alive = True, exitcode = None\<rparr>,
                      Spawn \<lparr>pid = 101, is_alive = True, exitcode = None\<rparr>]\<rparr>, None)"
  using update_workers_expired [of pool_w world_a]
  by (simp add: pool_w_def world_a_def task_a_def task_41_def task_42_def worker_40_def
      worker_41_def worker_42_def registry_ok_def workers_ok_def update_workers_def
      inspect_workers_def expire_def worker_id_lookup_def task_done_def create_workers_def
      new_worker_def Let_def numeral_2_eq_2)

section \<open>The registries stay well-formed\<close>

text \<open>
  The theorems on \<open>update_tasks\<close> and \<open>update_workers\<close> assume registries keyed by
  \<open>id(task)\<close> and by \<open>pid\<close>. An empty registry is one, and every operation that
  writes a registry keeps it so.
\<close>

lemma set_update_subset: "set (AList.update k v xs) \<subseteq> insert (k, v) (set xs)"
  by (induction xs) auto

lemma registry_ok_update:
  assumes "registry_ok s" "ident t = k"
  shows "registry_ok (s\<lparr>tasks := AList.update k t (tasks s)\<rparr>)"
proof -
  have "distinct (map fst (AList.update k t (tasks s)))"
    using assms(1) by (simp add: registry_ok_def distinct_update)
  moreover have "list_all (\<lambda>(k, t). ident t = k) (AList.update k t (tasks s))"
    using assms set_update_subset [of k t "tasks s"]
    by (auto simp: registry_ok_def list_all_iff)
  ultimately show ?thesis by (simp add: registry_ok_def)
qed

lemma registry_ok_preserved:
  fixes s :: "('p, 'r) pool"
  assumes ok: "registry_ok s"
  shows "registry_ok (register s t)"
    and "registry_ok (task_start now s k n)"
    and "registry_ok (task_done s k r)"
    and "registry_ok (process_message now s m)"
    and "registry_ok (schedule s t)"
proof -
  show reg: "registry_ok (register s t)"
    unfolding register_def using ok by (rule registry_ok_update) simp
  show start: "registry_ok (task_start now s k n)" for k n
  proof (cases "map_of (tasks s) k")
    case None
    then show ?thesis using ok by (simp add: task_start_def)
  next
    case (Some u)
    then have "ident (u\<lparr>metadata := WorkerId n, timestamp := now\<rparr>) = k"
      using registry_ok_key [OF ok] by simp
    with ok have "registry_ok (s\<lparr>tasks := AList.update k
        (u\<lparr>metadata := WorkerId n, timestamp := now\<rparr>) (tasks s)\<rparr>)"
      by (rule registry_ok_update)
    then show ?thesis using Some by (simp add: task_start_def)
  qed
  show finish: "registry_ok (task_done s k r)" for k and r :: "'r results"
    using ok registry_ok_delete [OF ok] by (simp add: task_done_def split: option.splits)
  show "registry_ok (process_message now s m)"
    using ok start finish by (cases m) (simp_all add: process_message_def)
  show "registry_ok (schedule s t)"
    using reg by (simp add: schedule_eq dispatch_def registry_ok_def)
qed

lemma registry_ok_empty: "registry_ok (s\<lparr>tasks := []\<rparr>)"
  by (simp add: registry_ok_def)

lemma workers_ok_preserved:
  fixes s :: "('p, 'r) pool"
  assumes ok: "workers_ok s"
  shows "workers_ok (new_worker wk s)"
    and "workers_ok (fst (stop_worker w i s m))"
proof -
  have "distinct (map fst (AList.update (pid wk) wk (workers s)))"
    using ok by (simp add: workers_ok_def distinct_update)
  moreover have "list_all (\<lambda>(k, wk). pid wk = k) (AList.update (pid wk) wk (workers s))"
    using ok set_update_subset [of "pid wk" wk "workers s"]
    by (auto simp: workers_ok_def list_all_iff)
  ultimately show "workers_ok (new_worker wk s)" by (simp add: workers_ok_def new_worker_def)
  have "workers_ok (s\<lparr>workers := AList.delete n (workers s), effects := e\<rparr>)" for n e
  proof -
    have "distinct (map fst (AList.delete n (workers s)))"
      using ok by (simp add: workers_ok_def distinct_delete)
    moreover have "list_all (\<lambda>(k, wk). pid wk = k) (AList.delete n (workers s))"
      using ok by (auto simp: workers_ok_def list_all_iff AList.delete_eq)
    ultimately show ?thesis by (simp add: workers_ok_def)
  qed
  then show "workers_ok (fst (stop_worker w i s m))"
    using ok by (simp add: stop_worker_def split: metadata.splits option.splits)
qed

end
